theory Spec2Isabelle
  imports Main
begin

section \<open>The build side of the partitioned hash join (PhjBuilder)\<close>

text \<open>
  A shallow embedding of \<^verbatim>\<open>be/src/exec/partitioned-hash-join-builder.cc\<close>.
  The builder's members are the fields of a record; every method takes the builder and
  returns its result together with the updated builder. The collaborators the builder
  only calls (buffered tuple streams, hash tables, the buffer pool client, the runtime
  state and the filter bank) are not part of the file: what they answer is read from an
  environment of functions over an abstract world \<open>'w\<close>, which every call threads
  through, so that nothing is assumed about how much memory there is.
\<close>

subsection \<open>Plain data\<close>

text \<open>The join operators of \<^verbatim>\<open>TJoinOp\<close> (declared in the generated Thrift header).\<close>

datatype TJoinOp =
  INNER_JOIN | LEFT_OUTER_JOIN | LEFT_SEMI_JOIN | LEFT_ANTI_JOIN
  | NULL_AWARE_LEFT_ANTI_JOIN | RIGHT_OUTER_JOIN | RIGHT_SEMI_JOIN | RIGHT_ANTI_JOIN
  | FULL_OUTER_JOIN | CROSS_JOIN

datatype TErrorCode =
  PARTITIONED_HASH_JOIN_MAX_PARTITION_DEPTH | PARTITIONED_HASH_JOIN_REPARTITION_FAILS

text \<open>
  A \<^verbatim>\<open>Status\<close>. \<open>ErrMsg\<close> is a status built from a message
  (\<^verbatim>\<open>Status(Substitute(...))\<close>), \<open>ErrCode\<close> one built from an error code,
  \<open>MemLimitExceeded\<close> the result of \<^verbatim>\<open>mem_tracker()->MemLimitExceeded\<close>,
  \<open>CANCELLED\<close> what \<^verbatim>\<open>RETURN_IF_CANCELLED\<close> returns, and \<open>ExtError\<close> any
  error status a collaborator hands back.
\<close>

datatype Status =
  OK | CANCELLED | ErrMsg string | ErrCode TErrorCode | MemLimitExceeded string
  | ExtError nat

datatype HashJoinState =
  PARTITIONING_BUILD | PARTITIONING_PROBE | PROBING_SPILLED_PARTITION
  | REPARTITIONING_BUILD | REPARTITIONING_PROBE

datatype UnpinMode = UNPIN_ALL | UNPIN_ALL_EXCEPT_CURRENT

text \<open>
  A hash table is a handle: its buckets and its \<^verbatim>\<open>ByteSize()\<close> live in the world.
  A buffered tuple stream is the sequence of rows appended to it, in arrival order
  (\<^verbatim>\<open>num_rows()\<close> is its length); which of its pages are pinned lives in the world.
\<close>

datatype HashTable = HashTable

type_synonym 'r BufferedTupleStream = "'r list"

definition num_rows :: "'r BufferedTupleStream \<Rightarrow> int" where
  "num_rows s = int (length s)"

record 'r Partition =
  level :: int
  is_spilled :: bool
  build_rows :: "'r BufferedTupleStream option"
  hash_tbl :: "HashTable option"

text \<open>
  The accessors of \<^verbatim>\<open>Partition\<close> are declared in the header, which is not among the
  sources. \<^verbatim>\<open>Partition::Close\<close> returns at once when \<^verbatim>\<open>IsClosed()\<close> holds and
  otherwise ends by resetting \<^verbatim>\<open>build_rows\<close>, so a partition is closed when it has no
  stream.
\<close>

definition IsClosed :: "'r Partition \<Rightarrow> bool" where
  "IsClosed p = (build_rows p = None)"

text \<open>
  Modelled from the spec: \<^verbatim>\<open>Partition::CanSpill\<close> is declared in the header, which is
  not among the sources. The spec says that spilling is possible until "every partition
  is spilled"; the comments of \<^verbatim>\<open>AppendRowStreamFull\<close> and
  \<^verbatim>\<open>ReserveProbeBuffers\<close> say the same ("if we ran out of unspilled partitions,
  SpillPartition() will return an error status"), and \<^verbatim>\<open>Spill\<close> asserts that its
  partition is not closed. So: not closed and not spilled.
\<close>

definition CanSpill :: "'r Partition \<Rightarrow> bool" where
  "CanSpill p = (\<not> IsClosed p \<and> \<not> is_spilled p)"

record FilterContext =
  filter_id :: int
  is_bloom_filter :: bool
  filter_size :: int
  local_bloom_filter :: "nat option"
  local_min_max_filter :: "nat option"

text \<open>
  The Bloom filter argument of \<^verbatim>\<open>UpdateFilterFromLocal\<close>: the null pointer the local
  variable starts with, the sentinel \<^verbatim>\<open>BloomFilter::ALWAYS_TRUE_FILTER\<close>, or a scratch
  filter of the context.
\<close>

datatype BloomFilterArg = NullBloomFilter | ALWAYS_TRUE_FILTER | ScratchBloomFilter nat

record FilterUpdate =
  upd_filter_id :: int
  upd_bloom_filter :: BloomFilterArg
  upd_min_max_filter :: "nat option"

text \<open>The struct handed to the probe side.\<close>

record HashPartitions =
  hp_level :: int
  hp_hash_partitions :: "nat list"
  hp_non_empty_build :: bool

subsection \<open>The collaborators\<close>

text \<open>Calls on collaborators that return nothing: they only change the world.\<close>

datatype 'r ExtCall =
  HashTableClose nat | StreamClose nat bool | SaveReservation int | RestoreReservation int
  | HtCtxClose | ExprEvalClose int | ScalarExprClose | ObjPoolClear | DataSinkClose
  | SubReservationClose | ExprResultsPoolClear | FilterInsert 'r
  | CallUpdateFilterFromLocal int BloomFilterArg "nat option"

text \<open>
  The environment. A stream or hash table is named by the index of its partition in
  \<^verbatim>\<open>all_partitions\<close>. \<open>PARTITION_FANOUT\<close> and \<open>MAX_PARTITION_DEPTH\<close> are constants
  of the header, and \<open>IsLeftSemiJoin\<close> is a function of another header;
  \<open>batch_size\<close> is \<^verbatim>\<open>state->batch_size()\<close>; \<open>HashRow\<close> and \<open>HasNullKey\<close> stand
  for the hash table context's evaluation of a build row at a level.
\<close>

record ('w, 'r) env =
  PARTITION_FANOUT :: nat
  MAX_PARTITION_DEPTH :: int
  batch_size :: nat
  IsLeftSemiJoin :: "TJoinOp \<Rightarrow> bool"
  HashRow :: "int \<Rightarrow> 'r \<Rightarrow> nat"
  HasNullKey :: "'r \<Rightarrow> bool"
  StartSpilling :: "'w \<Rightarrow> Status \<times> 'w"
  StreamInit :: "'w \<Rightarrow> nat \<Rightarrow> Status \<times> 'w"
  PrepareForWrite :: "'w \<Rightarrow> nat \<Rightarrow> (Status \<times> bool) \<times> 'w"
  AddRow :: "'w \<Rightarrow> nat \<Rightarrow> 'r \<Rightarrow> (bool \<times> Status) \<times> 'w"
  UnpinStream :: "'w \<Rightarrow> nat \<Rightarrow> UnpinMode \<Rightarrow> Status \<times> 'w"
  PinStream :: "'w \<Rightarrow> nat \<Rightarrow> (Status \<times> bool) \<times> 'w"
  PrepareForRead :: "'w \<Rightarrow> nat \<Rightarrow> bool \<Rightarrow> (Status \<times> bool) \<times> 'w"
  GetNext :: "'w \<Rightarrow> nat \<Rightarrow> Status \<times> 'w"
  BytesPinned :: "'w \<Rightarrow> nat \<Rightarrow> int"
  HashTableInit :: "'w \<Rightarrow> nat \<Rightarrow> (Status \<times> bool) \<times> 'w"
  InsertBatch :: "'w \<Rightarrow> nat \<Rightarrow> 'r list \<Rightarrow> (bool \<times> Status) \<times> 'w"
  ByteSize :: "'w \<Rightarrow> nat \<Rightarrow> int"
  IsCancelled :: "'w \<Rightarrow> bool"
  CheckQueryState :: "'w \<Rightarrow> Status \<times> 'w"
  GetQueryStatus :: "'w \<Rightarrow> Status"
  GetUnusedReservation :: "'w \<Rightarrow> int"
  HtCtxOpen :: "'w \<Rightarrow> Status \<times> 'w"
  ExprEvalOpen :: "'w \<Rightarrow> int \<Rightarrow> Status \<times> 'w"
  AllocateScratchBloomFilter :: "'w \<Rightarrow> int \<Rightarrow> nat option \<times> 'w"
  AllocateScratchMinMaxFilter :: "'w \<Rightarrow> int \<Rightarrow> nat option \<times> 'w"
  FpRateTooHigh :: "'w \<Rightarrow> int \<Rightarrow> int \<Rightarrow> bool"
  AlwaysTrue :: "'w \<Rightarrow> nat \<Rightarrow> bool"
  effect :: "'r ExtCall \<Rightarrow> 'w \<Rightarrow> 'w"

subsection \<open>The builder\<close>

text \<open>
  \<open>all_partitions\<close> owns the partitions; \<open>hash_partitions\<close> and
  \<open>null_aware_partition\<close> point into it, as do the partitions the probe side holds,
  so a pointer is an index into \<open>all_partitions\<close>. \<open>ht_ctx\<close> is the level of the hash
  table context, when there is one. \<open>probe_stream_reservation\<close> is the number of bytes
  of the sub-reservation, when it is open. \<open>filter_updates\<close> is the trace of the calls
  of \<^verbatim>\<open>UpdateFilterFromLocal\<close>, kept to say what has been published.
\<close>

record ('w, 'r) PhjBuilder =
  join_op :: TJoinOp
  spillable_buffer_size :: int
  is_not_distinct_from :: "bool list"
  filter_ctxs :: "FilterContext list"
  ht_ctx :: "int option"
  state :: HashJoinState
  non_empty_build :: bool
  closed :: bool
  all_partitions :: "'r Partition list"
  hash_partitions :: "nat list"
  null_aware_partition :: "nat option"
  probe_stream_reservation :: "int option"
  filter_updates :: "FilterUpdate list"
  world :: 'w

subsection \<open>HashTableStoresNulls\<close>

text \<open>
  \<^verbatim>\<open>std::accumulate(first, last, false, std::logical_or<bool>())\<close> folds the flags from
  the left, starting from false.
\<close>

definition HashTableStoresNulls :: "('w, 'r) PhjBuilder \<Rightarrow> bool" where
  "HashTableStoresNulls b =
     (join_op b = RIGHT_OUTER_JOIN \<or> join_op b = RIGHT_ANTI_JOIN
      \<or> join_op b = FULL_OUTER_JOIN
      \<or> foldl (\<or>) False (is_not_distinct_from b))"

subsection \<open>Partitions\<close>

text \<open>
  \<open>part b i\<close> follows the pointer \<open>i\<close>. A pointer to a partition that has been deleted
  must not be followed; the model reads a closed partition there.
\<close>

definition part :: "('w, 'r) PhjBuilder \<Rightarrow> nat \<Rightarrow> 'r Partition" where
  "part b i =
     (if i < length (all_partitions b) then all_partitions b ! i
      else \<lparr>level = 0, is_spilled = False, build_rows = None, hash_tbl = None\<rparr>)"

definition set_part :: "nat \<Rightarrow> 'r Partition \<Rightarrow> ('w, 'r) PhjBuilder \<Rightarrow> ('w, 'r) PhjBuilder" where
  "set_part i p b = b\<lparr>all_partitions := (all_partitions b)[i := p]\<rparr>"

definition call :: "('w, 'r) env \<Rightarrow> 'r ExtCall \<Rightarrow> ('w, 'r) PhjBuilder \<Rightarrow> ('w, 'r) PhjBuilder" where
  "call e c b = b\<lparr>world := effect e c (world b)\<rparr>"

text \<open>
  \<^verbatim>\<open>Partition::Close(batch)\<close>; \<open>batch\<close> tells whether a row batch was passed. The hash
  table is closed but the pointer to it is kept.
\<close>

definition Partition_Close ::
  "('w, 'r) env \<Rightarrow> nat \<Rightarrow> bool \<Rightarrow> ('w, 'r) PhjBuilder \<Rightarrow> ('w, 'r) PhjBuilder" where
  "Partition_Close e i batch b =
     (if IsClosed (part b i) then b
      else
        let b1 = (if hash_tbl (part b i) \<noteq> None then call e (HashTableClose i) b else b);
            b2 = call e (StreamClose i batch) b1
        in set_part i ((part b2 i)\<lparr>build_rows := None\<rparr>) b2)"

text \<open>\<^verbatim>\<open>Partition::Spill(mode)\<close>. The profile counters are not modelled.\<close>

definition Spill ::
  "('w, 'r) env \<Rightarrow> nat \<Rightarrow> UnpinMode \<Rightarrow> ('w, 'r) PhjBuilder \<Rightarrow> Status \<times> ('w, 'r) PhjBuilder" where
  "Spill e i mode b =
     (case StartSpilling e (world b) of (st, w1) \<Rightarrow>
        if st \<noteq> OK then (st, b\<lparr>world := w1\<rparr>)
        else
          let b1 = b\<lparr>world := w1\<rparr>;
              b2 = (if hash_tbl (part b1 i) \<noteq> None
                    then set_part i ((part b1 i)\<lparr>hash_tbl := None\<rparr>) (call e (HashTableClose i) b1)
                    else b1)
          in case UnpinStream e (world b2) i mode of (st2, w2) \<Rightarrow>
               if st2 \<noteq> OK then (st2, b2\<lparr>world := w2\<rparr>)
               else (OK, set_part i ((part b2 i)\<lparr>is_spilled := True\<rparr>) (b2\<lparr>world := w2\<rparr>)))"

text \<open>
  The rows of a stream as \<^verbatim>\<open>GetNext\<close> delivers them: in order, a batch of at most
  \<open>n\<close> rows at a time, the last batch with \<open>eos\<close>. A batch holds one row at least, so a
  capacity of 0 is not a capacity; the model reads the whole stream as one batch then.
\<close>

function batches_of :: "nat \<Rightarrow> 'r list \<Rightarrow> 'r list list" where
  "batches_of n rs =
     (if n = 0 \<or> length rs \<le> n then [rs] else take n rs # batches_of n (drop n rs))"
  by pat_completeness auto
termination
  by (relation "measure (\<lambda>(n, rs). length rs)") auto

declare batches_of.simps [simp del]

text \<open>How the insert loop of \<^verbatim>\<open>BuildHashTable\<close> is left.\<close>

datatype LoopExit = LoopDone | NotBuilt Status | Returned Status

text \<open>
  The body of the \<^verbatim>\<open>do ... while (!eos)\<close> loop, once for each batch:
  \<^verbatim>\<open>goto not_built\<close> when \<^verbatim>\<open>GetNext\<close> or the insertion fails, a plain return on
  cancellation or a query error.
\<close>

fun InsertLoop :: "('w, 'r) env \<Rightarrow> nat \<Rightarrow> 'r list list \<Rightarrow> 'w \<Rightarrow> LoopExit \<times> 'w" where
  "InsertLoop e i [] w = (LoopDone, w)"
| "InsertLoop e i (batch # rest) w =
     (case GetNext e w i of (st, w1) \<Rightarrow>
        if st \<noteq> OK then (NotBuilt st, w1)
        else case InsertBatch e w1 i batch of ((ok, st2), w2) \<Rightarrow>
          if \<not> ok then (NotBuilt st2, w2)
          else if IsCancelled e w2 then (Returned CANCELLED, w2)
          else if GetQueryStatus e w2 \<noteq> OK then (Returned (GetQueryStatus e w2), w2)
          else InsertLoop e i rest (effect e ExprResultsPoolClear w2))"

text \<open>The label \<^verbatim>\<open>not_built\<close>.\<close>

definition not_built ::
  "('w, 'r) env \<Rightarrow> nat \<Rightarrow> Status \<Rightarrow> ('w, 'r) PhjBuilder \<Rightarrow> (Status \<times> bool) \<times> ('w, 'r) PhjBuilder" where
  "not_built e i st b =
     ((st, False),
      (if hash_tbl (part b i) \<noteq> None
       then set_part i ((part b i)\<lparr>hash_tbl := None\<rparr>) (call e (HashTableClose i) b)
       else b))"

text \<open>
  \<^verbatim>\<open>Partition::BuildHashTable(&built)\<close>: the status and \<open>built\<close>.
  \<^verbatim>\<open>ctx->set_level(level())\<close> writes the level of the builder's hash table context.
  The function is cut in three: up to \<^verbatim>\<open>set_level\<close>; \<open>init_hash_tbl\<close>, which creates
  and initialises the hash table; \<open>insert_rows\<close>, which reads the stream and inserts
  its rows. \<open>finish_build\<close> is what follows the insert loop: the label
  \<^verbatim>\<open>not_built\<close>, the return from inside the loop (the hash table stays, \<open>built\<close> is
  still true), or the end of the function, where \<^verbatim>\<open>is_spilled_ = false\<close>.
\<close>

definition finish_build ::
  "('w, 'r) env \<Rightarrow> nat \<Rightarrow> ('w, 'r) PhjBuilder \<Rightarrow> LoopExit \<Rightarrow> (Status \<times> bool) \<times> ('w, 'r) PhjBuilder" where
  "finish_build e i b x =
     (case x of
        NotBuilt st \<Rightarrow> not_built e i st b
      | Returned st \<Rightarrow> ((st, True), b)
      | LoopDone \<Rightarrow> ((OK, True), set_part i ((part b i)\<lparr>is_spilled := False\<rparr>) b))"

definition insert_rows ::
  "('w, 'r) env \<Rightarrow> nat \<Rightarrow> ('w, 'r) PhjBuilder \<Rightarrow> (Status \<times> bool) \<times> ('w, 'r) PhjBuilder" where
  "insert_rows e i b =
     (case PrepareForRead e (world b) i False of ((st, success), w1) \<Rightarrow>
        let b1 = b\<lparr>world := w1\<rparr> in
        if st \<noteq> OK then not_built e i st b1
        else (case InsertLoop e i
                     (batches_of (batch_size e) (the (build_rows (part b1 i)))) (world b1) of
                (x, w2) \<Rightarrow> finish_build e i (b1\<lparr>world := w2\<rparr>) x))"

definition init_hash_tbl ::
  "('w, 'r) env \<Rightarrow> nat \<Rightarrow> ('w, 'r) PhjBuilder \<Rightarrow> (Status \<times> bool) \<times> ('w, 'r) PhjBuilder" where
  "init_hash_tbl e i b =
     (let b1 = set_part i ((part b i)\<lparr>hash_tbl := Some HashTable\<rparr>) b in
      case HashTableInit e (world b1) i of ((st, success), w1) \<Rightarrow>
        let b2 = b1\<lparr>world := w1\<rparr> in
        if st \<noteq> OK \<or> \<not> success then not_built e i st b2 else insert_rows e i b2)"

definition BuildHashTable ::
  "('w, 'r) env \<Rightarrow> nat \<Rightarrow> ('w, 'r) PhjBuilder \<Rightarrow> (Status \<times> bool) \<times> ('w, 'r) PhjBuilder" where
  "BuildHashTable e i b =
     (case PinStream e (world b) i of ((st, built), w1) \<Rightarrow>
        let b1 = b\<lparr>world := w1\<rparr> in
        if st \<noteq> OK then ((st, built), b1)
        else if \<not> built then ((OK, False), b1)
        else init_hash_tbl e i (b1\<lparr>ht_ctx := map_option (\<lambda>_. level (part b1 i)) (ht_ctx b1)\<rparr>))"

subsection \<open>Choosing and spilling a partition\<close>

text \<open>The memory a spill of partition \<open>i\<close> would free, as \<^verbatim>\<open>SpillPartition\<close> counts it.\<close>

definition freed_mem :: "('w, 'r) env \<Rightarrow> ('w, 'r) PhjBuilder \<Rightarrow> nat \<Rightarrow> int" where
  "freed_mem e b i =
     BytesPinned e (world b) i
     + (if hash_tbl (part b i) \<noteq> None then ByteSize e (world b) i else 0)"

text \<open>One round of the loop over \<open>hash_partitions\<close>, on \<open>(max_freed_mem, best_candidate)\<close>.\<close>

definition largest_step ::
  "('w, 'r) env \<Rightarrow> ('w, 'r) PhjBuilder \<Rightarrow> int \<times> nat option \<Rightarrow> nat \<Rightarrow> int \<times> nat option" where
  "largest_step e b acc candidate =
     (if \<not> CanSpill (part b candidate) then acc
      else if freed_mem e b candidate > fst acc then (freed_mem e b candidate, Some candidate)
      else acc)"

definition best_candidate :: "('w, 'r) env \<Rightarrow> ('w, 'r) PhjBuilder \<Rightarrow> nat option" where
  "best_candidate e b =
     (if null_aware_partition b \<noteq> None \<and> CanSpill (part b (the (null_aware_partition b)))
      then null_aware_partition b
      else snd (foldl (largest_step e b) (0, None) (hash_partitions b)))"

text \<open>
  The message of the status that \<^verbatim>\<open>SpillPartition\<close> returns when it finds no victim,
  up to the first argument substituted: the id of the join node and the builder and the
  buffer pool client printed after it are not modelled.
\<close>

definition NO_PARTITION_TO_SPILL :: string where
  "NO_PARTITION_TO_SPILL = ''Internal error: could not find a partition to spill in  hash join''"

text \<open>\<^verbatim>\<open>SpillPartition(mode, &spilled_partition)\<close>: the status and the partition spilled.\<close>

definition SpillPartition ::
  "('w, 'r) env \<Rightarrow> UnpinMode \<Rightarrow> ('w, 'r) PhjBuilder
   \<Rightarrow> (Status \<times> nat option) \<times> ('w, 'r) PhjBuilder" where
  "SpillPartition e mode b =
     (case best_candidate e b of
        None \<Rightarrow> ((ErrMsg NO_PARTITION_TO_SPILL, None), b)
      | Some i \<Rightarrow>
          (case Spill e i mode b of (st, b1) \<Rightarrow>
             if st \<noteq> OK then ((st, None), b1) else ((OK, Some i), b1)))"

subsection \<open>Appending a row, with spilling\<close>

text \<open>
  The number of partitions that can still be spilled: what the loops that call
  \<^verbatim>\<open>SpillPartition\<close> until it fails count down.
\<close>

definition spillable :: "('w, 'r) PhjBuilder \<Rightarrow> nat" where
  "spillable b = length (filter CanSpill (all_partitions b))"

lemma filter_update_less:
  "i < length xs \<Longrightarrow> P (xs ! i) \<Longrightarrow> \<not> P y \<Longrightarrow>
   length (filter P (xs[i := y])) < length (filter P xs)"
proof (induction xs arbitrary: i)
  case Nil
  then show ?case by simp
next
  case (Cons x xs)
  then show ?case by (cases i) auto
qed

lemma filter_update_same:
  "i < length xs \<Longrightarrow> P y = P (xs ! i) \<Longrightarrow>
   length (filter P (xs[i := y])) = length (filter P xs)"
proof (induction xs arbitrary: i)
  case Nil
  then show ?case by simp
next
  case (Cons x xs)
  then show ?case by (cases i) auto
qed

lemma CanSpill_valid: "CanSpill (part b i) \<Longrightarrow> i < length (all_partitions b)"
  by (auto simp: part_def CanSpill_def IsClosed_def split: if_splits)

lemma Spill_spillable:
  assumes "Spill e i mode b = (OK, b')" and "CanSpill (part b i)"
  shows "spillable b' < spillable b"
proof -
  have v: "i < length (all_partitions b)" using assms(2) by (rule CanSpill_valid)
  have c: "CanSpill (all_partitions b ! i)" using assms(2) v by (simp add: part_def)
  show ?thesis
    using assms(1) v c
    by (auto simp: Spill_def spillable_def set_part_def call_def part_def Let_def CanSpill_def
        IsClosed_def filter_update_same
        split: prod.splits if_splits intro!: filter_update_less)
qed

lemma largest_step_CanSpill:
  "foldl (largest_step e b) acc xs = (m, Some i) \<Longrightarrow>
   (snd acc = Some i \<and> snd acc \<noteq> None \<and> True) \<or> CanSpill (part b i)"
proof (induction xs arbitrary: acc)
  case Nil
  then show ?case by auto
next
  case (Cons x xs)
  from Cons.IH[of "largest_step e b acc x"] Cons.prems
  show ?case by (auto simp: largest_step_def split: if_splits)
qed

lemma best_candidate_CanSpill: "best_candidate e b = Some i \<Longrightarrow> CanSpill (part b i)"
proof -
  assume a: "best_candidate e b = Some i"
  show ?thesis
  proof (cases "null_aware_partition b \<noteq> None \<and> CanSpill (part b (the (null_aware_partition b)))")
    case True
    with a show ?thesis by (auto simp: best_candidate_def)
  next
    case False
    with a have "snd (foldl (largest_step e b) (0, None) (hash_partitions b)) = Some i"
      by (auto simp: best_candidate_def split: if_splits)
    then obtain m where "foldl (largest_step e b) (0, None) (hash_partitions b) = (m, Some i)"
      by (cases "foldl (largest_step e b) (0, None) (hash_partitions b)") auto
    from largest_step_CanSpill[OF this] show ?thesis by simp
  qed
qed

lemma SpillPartition_spillable:
  assumes "SpillPartition e mode b = ((OK, sp), b')"
  shows "spillable b' < spillable b"
proof (cases "best_candidate e b")
  case None
  with assms show ?thesis by (simp add: SpillPartition_def)
next
  case (Some i)
  with assms have "Spill e i mode b = (OK, b')"
    by (auto simp: SpillPartition_def split: prod.splits if_splits)
  then show ?thesis using best_candidate_CanSpill[OF Some] by (rule Spill_spillable)
qed

text \<open>
  \<^verbatim>\<open>stream->AddRow(row, status)\<close> on the stream of partition \<open>i\<close>: the world says
  whether the row fits and what \<open>status\<close> holds afterwards; a row that fits is appended.
\<close>

definition stream_AddRow ::
  "('w, 'r) env \<Rightarrow> nat \<Rightarrow> 'r \<Rightarrow> ('w, 'r) PhjBuilder \<Rightarrow> (bool \<times> Status) \<times> ('w, 'r) PhjBuilder" where
  "stream_AddRow e i row b =
     (case AddRow e (world b) i row of ((ok, st), w) \<Rightarrow>
        let b1 = b\<lparr>world := w\<rparr> in
        if ok
        then ((True, st),
              set_part i ((part b1 i)\<lparr>build_rows := map_option (\<lambda>s. s @ [row]) (build_rows (part b1 i))\<rparr>) b1)
        else ((False, st), b1))"

lemma stream_AddRow_failed:
  "stream_AddRow e i row b = ((False, st), b') \<Longrightarrow> all_partitions b' = all_partitions b"
  by (auto simp: stream_AddRow_def Let_def split: prod.splits if_splits)

text \<open>
  \<^verbatim>\<open>AppendRowStreamFull(stream, row, status)\<close>: the value returned and \<open>*status\<close>.
  Every round of \<^verbatim>\<open>while (true)\<close> that goes on has spilled a partition that could be
  spilled, so the loop ends.
\<close>

function AppendRowStreamFull ::
  "('w, 'r) env \<Rightarrow> nat \<Rightarrow> 'r \<Rightarrow> ('w, 'r) PhjBuilder \<Rightarrow> (bool \<times> Status) \<times> ('w, 'r) PhjBuilder" where
  "AppendRowStreamFull e i row b =
     (case SpillPartition e UNPIN_ALL_EXCEPT_CURRENT b of ((st, sp), b1) \<Rightarrow>
        if st \<noteq> OK then ((False, st), b1)
        else (case stream_AddRow e i row b1 of ((ok, st2), b2) \<Rightarrow>
          if ok then ((True, st2), b2)
          else if st2 \<noteq> OK then ((False, st2), b2)
          else AppendRowStreamFull e i row b2))"
  by pat_completeness auto
termination
proof (relation "measure (\<lambda>(e, i, row, b). spillable b)")
  show "wf (measure (\<lambda>(e, i, row, b). spillable b))" by simp
next
  fix e :: "('w, 'r) env" and i row and b b1 b2 :: "('w, 'r) PhjBuilder"
    and x xa st sp y ok st2
  assume "(x, b1) = SpillPartition e UNPIN_ALL_EXCEPT_CURRENT b" "(st, sp) = x" "\<not> st \<noteq> OK"
    "(xa, b2) = stream_AddRow e i row b1" "(ok, st2) = xa" "\<not> ok"
  then have 1: "SpillPartition e UNPIN_ALL_EXCEPT_CURRENT b = ((OK, sp), b1)"
    and 2: "stream_AddRow e i row b1 = ((False, st2), b2)" by auto
  have "spillable b2 = spillable b1"
    using stream_AddRow_failed[OF 2] by (simp add: spillable_def)
  with SpillPartition_spillable[OF 1]
  show "((e, i, row, b2), (e, i, row, b)) \<in> measure (\<lambda>(e, i, row, b). spillable b)" by simp
qed

text \<open>
  Modelled from the spec: \<^verbatim>\<open>AppendRow\<close> is defined in the header and
  \<^verbatim>\<open>ProcessBuildBatch\<close> in the file of the inner loops, neither among the sources.
  The spec of \<^verbatim>\<open>Send\<close>: every row of the batch is routed into its partition by hashing
  its key columns with the hash function of the level; for NULL_AWARE_LEFT_ANTI_JOIN a
  row with a NULL key goes to the null-aware partition; the runtime filters are updated
  only at level 0; when an append fails for lack of memory, spill and retry.
\<close>

definition AppendRow ::
  "('w, 'r) env \<Rightarrow> nat \<Rightarrow> 'r \<Rightarrow> ('w, 'r) PhjBuilder \<Rightarrow> (bool \<times> Status) \<times> ('w, 'r) PhjBuilder" where
  "AppendRow e i row b =
     (case stream_AddRow e i row b of ((ok, st), b1) \<Rightarrow>
        if ok then ((True, st), b1)
        else if st \<noteq> OK then ((False, st), b1)
        else AppendRowStreamFull e i row b1)"

text \<open>\<^verbatim>\<open>InsertRuntimeFilters(build_row)\<close> only changes the scratch filters, in the world.\<close>

definition InsertRuntimeFilters ::
  "('w, 'r) env \<Rightarrow> 'r \<Rightarrow> ('w, 'r) PhjBuilder \<Rightarrow> ('w, 'r) PhjBuilder" where
  "InsertRuntimeFilters e build_row b = call e (FilterInsert build_row) b"

fun ProcessBuildBatch ::
  "('w, 'r) env \<Rightarrow> 'r list \<Rightarrow> bool \<Rightarrow> bool \<Rightarrow> ('w, 'r) PhjBuilder \<Rightarrow> Status \<times> ('w, 'r) PhjBuilder" where
  "ProcessBuildBatch e [] build_filters is_null_aware b = (OK, b)"
| "ProcessBuildBatch e (row # rest) build_filters is_null_aware b =
     (if is_null_aware \<and> HasNullKey e row
      then (case AppendRow e (the (null_aware_partition b)) row b of ((ok, st), b1) \<Rightarrow>
              if \<not> ok then (st, b1)
              else ProcessBuildBatch e rest build_filters is_null_aware b1)
      else
        let b0 = (if build_filters then InsertRuntimeFilters e row b else b);
            partition_idx = HashRow e (the (ht_ctx b0)) row mod PARTITION_FANOUT e
        in (case AppendRow e (hash_partitions b0 ! partition_idx) row b0 of ((ok, st), b1) \<Rightarrow>
              if \<not> ok then (st, b1)
              else ProcessBuildBatch e rest build_filters is_null_aware b1))"

text \<open>
  \<^verbatim>\<open>Send(state, batch)\<close>. The generated functions compute what
  \<^verbatim>\<open>ProcessBuildBatch\<close> computes, so one branch stands for the three.
\<close>

definition Send ::
  "('w, 'r) env \<Rightarrow> 'r list \<Rightarrow> ('w, 'r) PhjBuilder \<Rightarrow> Status \<times> ('w, 'r) PhjBuilder" where
  "Send e batch b =
     (let build_filters = (the (ht_ctx b) = 0 \<and> length (filter_ctxs b) > 0) in
      case ProcessBuildBatch e batch build_filters (join_op b = NULL_AWARE_LEFT_ANTI_JOIN) b of
        (st, b1) \<Rightarrow>
          if st \<noteq> OK then (st, b1) else (OK, call e ExprResultsPoolClear b1))"

subsection \<open>The end of a build round\<close>

definition GetNumSpilledPartitions :: "('w, 'r) PhjBuilder \<Rightarrow> nat list \<Rightarrow> int" where
  "GetNumSpilledPartitions b partitions =
     int (length (filter (\<lambda>i. \<not> IsClosed (part b i) \<and> is_spilled (part b i)) partitions))"

text \<open>
  Modelled from the spec: the buffer pool client is not among the sources.
  \<^verbatim>\<open>SaveReservation(sub, bytes)\<close> moves \<open>bytes\<close> of the client's unused reservation into
  the sub-reservation, and \<^verbatim>\<open>RestoreReservation(sub, bytes)\<close> moves them back; what is
  left unused is the world's to say.
\<close>

definition SaveReservation_sub ::
  "('w, 'r) env \<Rightarrow> int \<Rightarrow> ('w, 'r) PhjBuilder \<Rightarrow> ('w, 'r) PhjBuilder" where
  "SaveReservation_sub e bytes b =
     (call e (SaveReservation bytes) b)
       \<lparr>probe_stream_reservation := map_option (\<lambda>r. r + bytes) (probe_stream_reservation b)\<rparr>"

definition RestoreReservation_sub ::
  "('w, 'r) env \<Rightarrow> int \<Rightarrow> ('w, 'r) PhjBuilder \<Rightarrow> ('w, 'r) PhjBuilder" where
  "RestoreReservation_sub e bytes b =
     (call e (RestoreReservation bytes) b)
       \<lparr>probe_stream_reservation := map_option (\<lambda>r. r - bytes) (probe_stream_reservation b)\<rparr>"

text \<open>
  The \<^verbatim>\<open>while\<close> loop of \<^verbatim>\<open>ReserveProbeBuffers\<close>, on \<open>addtl_reservation\<close>. It ends for
  the reason \<open>AppendRowStreamFull\<close> ends.
\<close>

function ReserveLoop ::
  "('w, 'r) env \<Rightarrow> int \<Rightarrow> ('w, 'r) PhjBuilder \<Rightarrow> (Status \<times> int) \<times> ('w, 'r) PhjBuilder" where
  "ReserveLoop e addtl_reservation b =
     (if addtl_reservation > GetUnusedReservation e (world b)
      then (case SpillPartition e UNPIN_ALL b of ((st, spilled_partition), b1) \<Rightarrow>
              if st \<noteq> OK then ((st, addtl_reservation), b1)
              else ReserveLoop e
                     (if spilled_partition \<noteq> null_aware_partition b1
                      then addtl_reservation + spillable_buffer_size b1
                      else addtl_reservation) b1)
      else ((OK, addtl_reservation), b))"
  by pat_completeness auto
termination
proof (relation "measure (\<lambda>(e, a, b). spillable b)")
  show "wf (measure (\<lambda>(e, a, b). spillable b))" by simp
next
  fix e :: "('w, 'r) env" and a :: int and b b1 :: "('w, 'r) PhjBuilder" and x st sp
  assume "(x, b1) = SpillPartition e UNPIN_ALL b" "(st, sp) = x" "\<not> st \<noteq> OK"
  then have "SpillPartition e UNPIN_ALL b = ((OK, sp), b1)" by auto
  from SpillPartition_spillable[OF this]
  show "((e, if sp \<noteq> null_aware_partition b1 then a + spillable_buffer_size b1 else a, b1), (e, a, b))
        \<in> measure (\<lambda>(e, a, b). spillable b)" by simp
qed

definition ReserveProbeBuffers ::
  "('w, 'r) env \<Rightarrow> bool \<Rightarrow> ('w, 'r) PhjBuilder \<Rightarrow> Status \<times> ('w, 'r) PhjBuilder" where
  "ReserveProbeBuffers e input_is_spilled b =
     (let num_probe_streams =
            GetNumSpilledPartitions b (hash_partitions b) + (if input_is_spilled then 1 else 0);
          per_stream_reservation = spillable_buffer_size b;
          addtl_reservation =
            num_probe_streams * per_stream_reservation - the (probe_stream_reservation b)
      in case ReserveLoop e addtl_reservation b of ((st, addtl), b1) \<Rightarrow>
           if st \<noteq> OK then (st, b1) else (OK, SaveReservation_sub e addtl b1))"

text \<open>The partitions \<^verbatim>\<open>hash_partitions_[i]\<close> for \<open>i\<close> from 0 below \<open>PARTITION_FANOUT\<close>.\<close>

definition fanout_partitions :: "('w, 'r) env \<Rightarrow> ('w, 'r) PhjBuilder \<Rightarrow> nat list" where
  "fanout_partitions e b = map (\<lambda>k. hash_partitions b ! k) [0..<PARTITION_FANOUT e]"

text \<open>The first loop of \<^verbatim>\<open>BuildHashTablesAndReserveProbeBuffers\<close>.\<close>

fun CloseOrUnpin ::
  "('w, 'r) env \<Rightarrow> nat list \<Rightarrow> ('w, 'r) PhjBuilder \<Rightarrow> Status \<times> ('w, 'r) PhjBuilder" where
  "CloseOrUnpin e [] b = (OK, b)"
| "CloseOrUnpin e (i # rest) b =
     (if num_rows (the (build_rows (part b i))) = 0
      then CloseOrUnpin e rest (Partition_Close e i False b)
      else if is_spilled (part b i)
      then (case UnpinStream e (world b) i UNPIN_ALL of (st, w) \<Rightarrow>
              if st \<noteq> OK then (st, b\<lparr>world := w\<rparr>) else CloseOrUnpin e rest (b\<lparr>world := w\<rparr>))
      else CloseOrUnpin e rest b)"

text \<open>The second loop: build a hash table, or spill the partition when it does not fit.\<close>

fun BuildLoop ::
  "('w, 'r) env \<Rightarrow> nat list \<Rightarrow> ('w, 'r) PhjBuilder \<Rightarrow> Status \<times> ('w, 'r) PhjBuilder" where
  "BuildLoop e [] b = (OK, b)"
| "BuildLoop e (i # rest) b =
     (if IsClosed (part b i) \<or> is_spilled (part b i) then BuildLoop e rest b
      else (case BuildHashTable e i b of ((st, built), b1) \<Rightarrow>
        if st \<noteq> OK then (st, b1)
        else if \<not> built
        then (case Spill e i UNPIN_ALL b1 of (st2, b2) \<Rightarrow>
                if st2 \<noteq> OK then (st2, b2) else BuildLoop e rest b2)
        else BuildLoop e rest b1))"

definition BuildHashTablesAndReserveProbeBuffers ::
  "('w, 'r) env \<Rightarrow> ('w, 'r) PhjBuilder \<Rightarrow> Status \<times> ('w, 'r) PhjBuilder" where
  "BuildHashTablesAndReserveProbeBuffers e b =
     (case CloseOrUnpin e (fanout_partitions e b) b of (st1, b1) \<Rightarrow>
        if st1 \<noteq> OK then (st1, b1)
        else
          let input_is_spilled = (the (ht_ctx b1) > 0) in
          (case ReserveProbeBuffers e input_is_spilled b1 of (st2, b2) \<Rightarrow>
             if st2 \<noteq> OK then (st2, b2)
             else (case BuildLoop e (fanout_partitions e b2) b2 of (st3, b3) \<Rightarrow>
               if st3 \<noteq> OK then (st3, b3)
               else ReserveProbeBuffers e input_is_spilled b3)))"

subsection \<open>Runtime filters\<close>

text \<open>
  The Bloom filter that \<^verbatim>\<open>PublishRuntimeFilters\<close> passes on for a context, and whether
  it counts the context among the enabled filters.
\<close>

definition bloom_filter_arg ::
  "('w, 'r) env \<Rightarrow> 'w \<Rightarrow> int \<Rightarrow> FilterContext \<Rightarrow> BloomFilterArg" where
  "bloom_filter_arg e w num_build_rows ctx =
     (if local_bloom_filter ctx \<noteq> None
      then (if FpRateTooHigh e w (filter_size ctx) num_build_rows then ALWAYS_TRUE_FILTER
            else ScratchBloomFilter (the (local_bloom_filter ctx)))
      else NullBloomFilter)"

definition filter_enabled ::
  "('w, 'r) env \<Rightarrow> 'w \<Rightarrow> int \<Rightarrow> FilterContext \<Rightarrow> bool" where
  "filter_enabled e w num_build_rows ctx =
     (if local_bloom_filter ctx \<noteq> None
      then \<not> FpRateTooHigh e w (filter_size ctx) num_build_rows
      else (local_min_max_filter ctx \<noteq> None
            \<and> \<not> AlwaysTrue e w (the (local_min_max_filter ctx))))"

text \<open>One round of the loop over \<open>filter_ctxs\<close>, on \<open>num_enabled_filters\<close> and the builder.\<close>

definition publish_step ::
  "('w, 'r) env \<Rightarrow> int \<Rightarrow> nat \<times> ('w, 'r) PhjBuilder \<Rightarrow> FilterContext
   \<Rightarrow> nat \<times> ('w, 'r) PhjBuilder" where
  "publish_step e num_build_rows acc ctx =
     (let b = snd acc;
          bloom_filter = bloom_filter_arg e (world b) num_build_rows ctx;
          num_enabled_filters =
            (if filter_enabled e (world b) num_build_rows ctx then fst acc + 1 else fst acc)
      in (num_enabled_filters,
          (call e (CallUpdateFilterFromLocal (filter_id ctx) bloom_filter (local_min_max_filter ctx)) b)
            \<lparr>filter_updates := filter_updates b @
               [\<lparr>upd_filter_id = filter_id ctx, upd_bloom_filter = bloom_filter,
                 upd_min_max_filter = local_min_max_filter ctx\<rparr>]\<rparr>))"

text \<open>
  \<^verbatim>\<open>PublishRuntimeFilters(num_build_rows)\<close>, with \<open>num_enabled_filters\<close>, the number the
  profile reports as published.
\<close>

definition PublishRuntimeFilters ::
  "('w, 'r) env \<Rightarrow> int \<Rightarrow> ('w, 'r) PhjBuilder \<Rightarrow> nat \<times> ('w, 'r) PhjBuilder" where
  "PublishRuntimeFilters e num_build_rows b =
     foldl (publish_step e num_build_rows) (0, b) (filter_ctxs b)"

subsection \<open>FlushFinal\<close>

text \<open>\<^verbatim>\<open>UpdateState(next_state)\<close>; its assertions are \<open>legal_transition\<close>.\<close>

definition legal_transition :: "HashJoinState \<Rightarrow> HashJoinState \<Rightarrow> bool" where
  "legal_transition s next_state =
     (case s of
        PARTITIONING_BUILD \<Rightarrow> next_state = PARTITIONING_PROBE
      | REPARTITIONING_BUILD \<Rightarrow> next_state = REPARTITIONING_PROBE
      | _ \<Rightarrow> next_state = REPARTITIONING_BUILD \<or> next_state = PROBING_SPILLED_PARTITION)"

definition UpdateState :: "HashJoinState \<Rightarrow> ('w, 'r) PhjBuilder \<Rightarrow> ('w, 'r) PhjBuilder" where
  "UpdateState next_state b = b\<lparr>state := next_state\<rparr>"

text \<open>
  \<^verbatim>\<open>FlushFinal(state)\<close>, without the profile counter and the log. \<open>count_build_rows\<close> is
  its local \<open>num_build_rows\<close>; \<open>publish_at_level_0\<close> is the block under
  \<^verbatim>\<open>if (ht_ctx_->level() == 0)\<close>.
\<close>

definition count_build_rows :: "('w, 'r) PhjBuilder \<Rightarrow> int" where
  "count_build_rows b =
     sum_list (map (\<lambda>i. num_rows (the (build_rows (part b i)))) (hash_partitions b))"

definition publish_at_level_0 ::
  "('w, 'r) env \<Rightarrow> int \<Rightarrow> ('w, 'r) PhjBuilder \<Rightarrow> ('w, 'r) PhjBuilder" where
  "publish_at_level_0 e num_build_rows b =
     (if the (ht_ctx b) = 0
      then (let b0 = snd (PublishRuntimeFilters e num_build_rows b)
            in b0\<lparr>non_empty_build := (non_empty_build b0 \<or> num_build_rows > 0)\<rparr>)
      else b)"

definition FlushFinal ::
  "('w, 'r) env \<Rightarrow> ('w, 'r) PhjBuilder \<Rightarrow> Status \<times> ('w, 'r) PhjBuilder" where
  "FlushFinal e b =
     (let num_build_rows = count_build_rows b;
          b1 = publish_at_level_0 e num_build_rows b
      in case (if null_aware_partition b1 \<noteq> None
                  \<and> is_spilled (part b1 (the (null_aware_partition b1)))
               then Spill e (the (null_aware_partition b1)) UNPIN_ALL b1
               else (OK, b1)) of (st2, b2) \<Rightarrow>
           if st2 \<noteq> OK then (st2, b2)
           else (case BuildHashTablesAndReserveProbeBuffers e b2 of (st3, b3) \<Rightarrow>
             if st3 \<noteq> OK then (st3, b3)
             else if state b3 = PARTITIONING_BUILD
             then (OK, UpdateState PARTITIONING_PROBE b3)
             else (OK, UpdateState REPARTITIONING_PROBE b3)))"

subsection \<open>Creating partitions and repartitioning\<close>

text \<open>
  \<^verbatim>\<open>CreateAndPreparePartition(level, &partition)\<close>: the status and the new partition,
  which \<^verbatim>\<open>*partition\<close> holds also when preparing its stream fails.
\<close>

definition CreateAndPreparePartition ::
  "('w, 'r) env \<Rightarrow> int \<Rightarrow> ('w, 'r) PhjBuilder \<Rightarrow> (Status \<times> nat) \<times> ('w, 'r) PhjBuilder" where
  "CreateAndPreparePartition e lvl b =
     (let i = length (all_partitions b);
          b1 = b\<lparr>all_partitions := all_partitions b @
                 [\<lparr>level = lvl, is_spilled = False, build_rows = Some [], hash_tbl = None\<rparr>]\<rparr>
      in case StreamInit e (world b1) i of (st, w1) \<Rightarrow>
           if st \<noteq> OK then ((st, i), b1\<lparr>world := w1\<rparr>)
           else (case PrepareForWrite e w1 i of ((st2, got_buffer), w2) \<Rightarrow>
             if st2 \<noteq> OK then ((st2, i), b1\<lparr>world := w2\<rparr>) else ((OK, i), b1\<lparr>world := w2\<rparr>)))"

text \<open>The loop of \<^verbatim>\<open>CreateHashPartitions\<close>, with the number of rounds left.\<close>

fun CreateLoop ::
  "('w, 'r) env \<Rightarrow> int \<Rightarrow> nat \<Rightarrow> ('w, 'r) PhjBuilder \<Rightarrow> Status \<times> ('w, 'r) PhjBuilder" where
  "CreateLoop e lvl 0 b = (OK, b)"
| "CreateLoop e lvl (Suc n) b =
     (case CreateAndPreparePartition e lvl b of ((st, new_partition), b1) \<Rightarrow>
        if st \<noteq> OK then (st, b1)
        else CreateLoop e lvl n (b1\<lparr>hash_partitions := hash_partitions b1 @ [new_partition]\<rparr>))"

definition CreateHashPartitions ::
  "('w, 'r) env \<Rightarrow> int \<Rightarrow> ('w, 'r) PhjBuilder \<Rightarrow> Status \<times> ('w, 'r) PhjBuilder" where
  "CreateHashPartitions e lvl b =
     CreateLoop e lvl (PARTITION_FANOUT e) (b\<lparr>ht_ctx := map_option (\<lambda>_. lvl) (ht_ctx b)\<rparr>)"

definition PREPARE_FOR_READ_FAILED_ERROR_MSG :: string where
  "PREPARE_FOR_READ_FAILED_ERROR_MSG =
     ''Failed to acquire initial read buffer for stream in hash join node''"

text \<open>
  The \<^verbatim>\<open>while (!eos)\<close> loop of \<^verbatim>\<open>RepartitionBuildInput\<close>, once for each batch of
  the input stream.
\<close>

fun RepartitionLoop ::
  "('w, 'r) env \<Rightarrow> nat \<Rightarrow> 'r list list \<Rightarrow> ('w, 'r) PhjBuilder \<Rightarrow> Status \<times> ('w, 'r) PhjBuilder" where
  "RepartitionLoop e i [] b = (OK, b)"
| "RepartitionLoop e i (build_batch # rest) b =
     (if IsCancelled e (world b) then (CANCELLED, b)
      else (case CheckQueryState e (world b) of (st1, w1) \<Rightarrow>
        if st1 \<noteq> OK then (st1, b\<lparr>world := w1\<rparr>)
        else (case GetNext e w1 i of (st2, w2) \<Rightarrow>
          if st2 \<noteq> OK then (st2, b\<lparr>world := w2\<rparr>)
          else (case Send e build_batch (b\<lparr>world := w2\<rparr>) of (st3, b1) \<Rightarrow>
            if st3 \<noteq> OK then (st3, b1) else RepartitionLoop e i rest b1))))"

definition RepartitionBuildInput ::
  "('w, 'r) env \<Rightarrow> nat \<Rightarrow> ('w, 'r) PhjBuilder \<Rightarrow> Status \<times> ('w, 'r) PhjBuilder" where
  "RepartitionBuildInput e input_partition b =
     (let new_level = level (part b input_partition) + 1 in
      case PrepareForRead e (world b) input_partition True of ((st1, got_read_buffer), w1) \<Rightarrow>
        let b1 = b\<lparr>world := w1\<rparr> in
        if st1 \<noteq> OK then (st1, b1)
        else if \<not> got_read_buffer
        then (MemLimitExceeded PREPARE_FOR_READ_FAILED_ERROR_MSG, b1)
        else (case CreateHashPartitions e new_level b1 of (st2, b2) \<Rightarrow>
          if st2 \<noteq> OK then (st2, b2)
          else (case RepartitionLoop e input_partition
                       (batches_of (batch_size e) (the (build_rows (part b2 input_partition)))) b2 of
                  (st3, b3) \<Rightarrow>
            if st3 \<noteq> OK then (st3, b3)
            else FlushFinal e (Partition_Close e input_partition False b3))))"

text \<open>One round of the loop of \<^verbatim>\<open>LargestPartitionRows\<close>, on \<open>max_rows\<close>.\<close>

definition largest_rows_step :: "('w, 'r) PhjBuilder \<Rightarrow> int \<Rightarrow> nat \<Rightarrow> int" where
  "largest_rows_step b max_rows i =
     (if IsClosed (part b i) then max_rows
      else if num_rows (the (build_rows (part b i))) > max_rows
      then num_rows (the (build_rows (part b i)))
      else max_rows)"

definition LargestPartitionRows :: "('w, 'r) PhjBuilder \<Rightarrow> int" where
  "LargestPartitionRows b = foldl (largest_rows_step b) 0 (hash_partitions b)"

subsection \<open>Handing over to the probe side\<close>

definition TransferProbeStreamReservation ::
  "('w, 'r) env \<Rightarrow> ('w, 'r) PhjBuilder \<Rightarrow> ('w, 'r) PhjBuilder" where
  "TransferProbeStreamReservation e b =
     (let saved_reservation = the (probe_stream_reservation b)
      in RestoreReservation_sub e saved_reservation b)"

definition make_HashPartitions :: "('w, 'r) PhjBuilder \<Rightarrow> HashPartitions" where
  "make_HashPartitions b =
     \<lparr>hp_level = the (ht_ctx b), hp_hash_partitions = hash_partitions b,
      hp_non_empty_build = non_empty_build b\<rparr>"


text \<open>
  What \<^verbatim>\<open>BeginSpilledProbe\<close> writes through \<open>repartitioned\<close>, \<open>level\<close> and
  \<open>new_partitions\<close>; \<open>None\<close> where it writes nothing.
\<close>

record SpilledProbeOut =
  out_repartitioned :: "bool option"
  out_level :: "int option"
  out_new_partitions :: "HashPartitions option"

definition no_out :: SpilledProbeOut where
  "no_out = \<lparr>out_repartitioned = None, out_level = None, out_new_partitions = None\<rparr>"

text \<open>
  The part of \<^verbatim>\<open>BeginSpilledProbe\<close> after the check of the depth: spill the input,
  give the read buffer's reservation back, repartition, and check the progress.
\<close>

definition Repartition ::
  "('w, 'r) env \<Rightarrow> nat \<Rightarrow> ('w, 'r) PhjBuilder
   \<Rightarrow> (Status \<times> SpilledProbeOut) \<times> ('w, 'r) PhjBuilder" where
  "Repartition e partition' b =
     (case Spill e partition' UNPIN_ALL b of (st1, b1) \<Rightarrow>
        if st1 \<noteq> OK then ((st1, no_out), b1)
        else
          let b2 = RestoreReservation_sub e (spillable_buffer_size b1) b1;
              num_input_rows = num_rows (the (build_rows (part b2 partition')))
          in (case RepartitionBuildInput e partition' b2 of (st2, b3) \<Rightarrow>
            if st2 \<noteq> OK then ((st2, no_out), b3)
            else
              let largest_partition_rows = LargestPartitionRows b3 in
              if num_input_rows = largest_partition_rows
              then ((ErrCode PARTITIONED_HASH_JOIN_REPARTITION_FAILS, no_out), b3)
              else
                let b4 = TransferProbeStreamReservation e b3
                in ((OK, \<lparr>out_repartitioned = Some True, out_level = Some (the (ht_ctx b4)),
                          out_new_partitions = Some (make_HashPartitions b4)\<rparr>), b4)))"

definition BeginSpilledProbe ::
  "('w, 'r) env \<Rightarrow> bool \<Rightarrow> nat \<Rightarrow> ('w, 'r) PhjBuilder
   \<Rightarrow> (Status \<times> SpilledProbeOut) \<times> ('w, 'r) PhjBuilder" where
  "BeginSpilledProbe e empty_probe partition' b =
     (if empty_probe
      then (case PrepareForRead e (world b) partition' True of ((st, got_read_buffer), w) \<Rightarrow>
        let b1 = b\<lparr>world := w\<rparr> in
        if st \<noteq> OK then ((st, no_out), b1)
        else if \<not> got_read_buffer
        then ((MemLimitExceeded PREPARE_FOR_READ_FAILED_ERROR_MSG, no_out), b1)
        else
          let b2 = UpdateState PROBING_SPILLED_PARTITION b1
          in ((OK, \<lparr>out_repartitioned = Some False, out_level = Some (level (part b2 partition')),
                    out_new_partitions = None\<rparr>), b2))
      else
        let b1 = SaveReservation_sub e (spillable_buffer_size b) b in
        (case BuildHashTable e partition' b1 of ((st, built), b2) \<Rightarrow>
           if st \<noteq> OK then ((st, no_out), b2)
           else if built
           then
             let b3 = UpdateState PROBING_SPILLED_PARTITION (TransferProbeStreamReservation e b2)
             in ((OK, \<lparr>out_repartitioned = Some False, out_level = Some (level (part b3 partition')),
                       out_new_partitions = None\<rparr>), b3)
           else
             let b3 = UpdateState REPARTITIONING_BUILD b2;
                 next_partition_level = level (part b3 partition') + 1
             in if next_partition_level \<ge> MAX_PARTITION_DEPTH e
                then ((ErrCode PARTITIONED_HASH_JOIN_MAX_PARTITION_DEPTH, no_out), b3)
                else Repartition e partition' b3))"

subsection \<open>After probing\<close>





subsection \<open>Reset and Close\<close>

text \<open>The loop of \<^verbatim>\<open>CloseAndDeletePartitions\<close>: close every partition.\<close>

definition CloseAllPartitions ::
  "('w, 'r) env \<Rightarrow> bool \<Rightarrow> ('w, 'r) PhjBuilder \<Rightarrow> ('w, 'r) PhjBuilder" where
  "CloseAllPartitions e row_batch b =
     foldl (\<lambda>b1 i. Partition_Close e i row_batch b1) b [0..<length (all_partitions b)]"

definition CloseAndDeletePartitions ::
  "('w, 'r) env \<Rightarrow> bool \<Rightarrow> ('w, 'r) PhjBuilder \<Rightarrow> ('w, 'r) PhjBuilder" where
  "CloseAndDeletePartitions e row_batch b =
     (CloseAllPartitions e row_batch b)
       \<lparr>all_partitions := [], hash_partitions := [], null_aware_partition := None\<rparr>"



text \<open>
  \<^verbatim>\<open>Close(state)\<close>. The evaluator of every filter context is taken to exist, as it does
  after \<^verbatim>\<open>Prepare\<close>.
\<close>

definition Close :: "('w, 'r) env \<Rightarrow> ('w, 'r) PhjBuilder \<Rightarrow> ('w, 'r) PhjBuilder" where
  "Close e b =
     (if closed b then b
      else
        let b1 = CloseAndDeletePartitions e False b;
            b2 = (if ht_ctx b1 \<noteq> None then call e HtCtxClose b1 else b1);
            b3 = b2\<lparr>ht_ctx := None\<rparr>;
            b4 = foldl (\<lambda>b' ctx. call e (ExprEvalClose (filter_id ctx)) b') b3 (filter_ctxs b3);
            b5 = call e ScalarExprClose b4;
            b6 = call e ScalarExprClose b5;
            b7 = call e ObjPoolClear b6;
            b8 = (call e SubReservationClose b7)\<lparr>probe_stream_reservation := None\<rparr>;
            b9 = call e DataSinkClose b8
        in b9\<lparr>closed := True\<rparr>)"

subsection \<open>Open\<close>





subsection \<open>A builder and a world to run the model on\<close>

text \<open>
  An environment in which every collaborator succeeds: rows are natural numbers, a row
  hashes to itself at every level, no key is NULL, and no memory is pinned. The theorems
  below are instantiated with it, changed where a failure is wanted.
\<close>

definition env_ok :: "('w, nat) env" where
  "env_ok =
     \<lparr>PARTITION_FANOUT = 2, MAX_PARTITION_DEPTH = 16, batch_size = 2,
      IsLeftSemiJoin = (\<lambda>op. op = LEFT_SEMI_JOIN \<or> op = LEFT_ANTI_JOIN
                               \<or> op = NULL_AWARE_LEFT_ANTI_JOIN),
      HashRow = (\<lambda>lvl r. r), HasNullKey = (\<lambda>r. False),
      StartSpilling = (\<lambda>w. (OK, w)), StreamInit = (\<lambda>w i. (OK, w)),
      PrepareForWrite = (\<lambda>w i. ((OK, True), w)), AddRow = (\<lambda>w i r. ((True, OK), w)),
      UnpinStream = (\<lambda>w i m. (OK, w)), PinStream = (\<lambda>w i. ((OK, True), w)),
      PrepareForRead = (\<lambda>w i d. ((OK, True), w)), GetNext = (\<lambda>w i. (OK, w)),
      BytesPinned = (\<lambda>w i. 0), HashTableInit = (\<lambda>w i. ((OK, True), w)),
      InsertBatch = (\<lambda>w i rs. ((True, OK), w)), ByteSize = (\<lambda>w i. 0),
      IsCancelled = (\<lambda>w. False), CheckQueryState = (\<lambda>w. (OK, w)),
      GetQueryStatus = (\<lambda>w. OK), GetUnusedReservation = (\<lambda>w. 0),
      HtCtxOpen = (\<lambda>w. (OK, w)), ExprEvalOpen = (\<lambda>w i. (OK, w)),
      AllocateScratchBloomFilter = (\<lambda>w i. (Some 0, w)),
      AllocateScratchMinMaxFilter = (\<lambda>w i. (Some 0, w)),
      FpRateTooHigh = (\<lambda>w s n. False), AlwaysTrue = (\<lambda>w f. False),
      effect = (\<lambda>c w. w)\<rparr>"

text \<open>A builder after \<^verbatim>\<open>Prepare\<close>, with the partitions given.\<close>

definition builder_of :: "TJoinOp \<Rightarrow> nat Partition list \<Rightarrow> nat list \<Rightarrow> (unit, nat) PhjBuilder" where
  "builder_of op ps hs =
     \<lparr>join_op = op, spillable_buffer_size = 8, is_not_distinct_from = [False],
      filter_ctxs = [], ht_ctx = Some 0, state = PARTITIONING_BUILD, non_empty_build = False,
      closed = False, all_partitions = ps, hash_partitions = hs,
      null_aware_partition = None, probe_stream_reservation = Some 0,
      filter_updates = [], world = ()\<rparr>"

definition partition_of :: "int \<Rightarrow> bool \<Rightarrow> nat list \<Rightarrow> nat Partition" where
  "partition_of lvl spilled rs =
     \<lparr>level = lvl, is_spilled = spilled, build_rows = Some rs, hash_tbl = None\<rparr>"

text \<open>Three partitions with 5, 9 and 9 bytes pinned, to choose a spill victim from.\<close>

definition env_mem :: "(unit, nat) env" where
  "env_mem = env_ok\<lparr>BytesPinned := (\<lambda>w i. [5, 9, 9] ! i)\<rparr>"

definition three_partitions :: "(unit, nat) PhjBuilder" where
  "three_partitions =
     builder_of INNER_JOIN
       [partition_of 0 False [1], partition_of 0 False [2, 3], partition_of 0 False [4, 5]]
       [0, 1, 2]"

definition with_null_aware :: "(unit, nat) PhjBuilder" where
  "with_null_aware =
     (builder_of NULL_AWARE_LEFT_ANTI_JOIN
       [partition_of 0 False [1], partition_of 0 False [2, 3], partition_of 0 False [4, 5]]
       [0, 1])\<lparr>null_aware_partition := Some 2\<rparr>"


subsection \<open>What an operation leaves alone\<close>

text \<open>
  \<open>nrows\<close> is the number of rows of a partition, 0 when it is closed. \<open>frame b b'\<close>
  says that \<open>b'\<close> differs from \<open>b\<close> at most in the contents of the partitions other than
  their levels, in the level of the hash table context, in the bytes of the
  sub-reservation and in the world. \<open>grows k b b'\<close> says that no partition has gained
  more than \<open>k\<close> rows.
\<close>

definition nrows :: "'r Partition \<Rightarrow> nat" where
  "nrows p = (case build_rows p of None \<Rightarrow> 0 | Some s \<Rightarrow> length s)"

definition frame :: "('w, 'r) PhjBuilder \<Rightarrow> ('w, 'r) PhjBuilder \<Rightarrow> bool" where
  "frame b b' =
     (join_op b' = join_op b \<and> spillable_buffer_size b' = spillable_buffer_size b
      \<and> is_not_distinct_from b' = is_not_distinct_from b \<and> filter_ctxs b' = filter_ctxs b
      \<and> state b' = state b \<and> non_empty_build b' = non_empty_build b \<and> closed b' = closed b
      \<and> hash_partitions b' = hash_partitions b
      \<and> null_aware_partition b' = null_aware_partition b
      \<and> filter_updates b' = filter_updates b
      \<and> (ht_ctx b' = None) = (ht_ctx b = None)
      \<and> (probe_stream_reservation b' = None) = (probe_stream_reservation b = None)
      \<and> length (all_partitions b') = length (all_partitions b)
      \<and> (\<forall>i. level (part b' i) = level (part b i)))"

definition grows :: "nat \<Rightarrow> ('w, 'r) PhjBuilder \<Rightarrow> ('w, 'r) PhjBuilder \<Rightarrow> bool" where
  "grows k b b' = (\<forall>i. nrows (part b' i) \<le> nrows (part b i) + k)"

text \<open>
  \<open>quiet k b b'\<close>: moreover the level of the hash table context and the sub-reservation
  are the same.
\<close>

definition quiet :: "nat \<Rightarrow> ('w, 'r) PhjBuilder \<Rightarrow> ('w, 'r) PhjBuilder \<Rightarrow> bool" where
  "quiet k b b' =
     (frame b b' \<and> grows k b b' \<and> ht_ctx b' = ht_ctx b
      \<and> probe_stream_reservation b' = probe_stream_reservation b)"

text \<open>
  \<open>published_only b b'\<close>: at most the trace of the filter updates and the world differ.
\<close>

definition published_only :: "('w, 'r) PhjBuilder \<Rightarrow> ('w, 'r) PhjBuilder \<Rightarrow> bool" where
  "published_only b b' =
     (join_op b' = join_op b \<and> spillable_buffer_size b' = spillable_buffer_size b
      \<and> is_not_distinct_from b' = is_not_distinct_from b \<and> filter_ctxs b' = filter_ctxs b
      \<and> ht_ctx b' = ht_ctx b \<and> state b' = state b \<and> non_empty_build b' = non_empty_build b
      \<and> closed b' = closed b \<and> all_partitions b' = all_partitions b
      \<and> hash_partitions b' = hash_partitions b
      \<and> null_aware_partition b' = null_aware_partition b
      \<and> probe_stream_reservation b' = probe_stream_reservation b)"

text \<open>
  \<open>round k b b'\<close>: what holds from the start to the end of a build round, in which
  partitions are created: the partitions there were keep their levels, none has gained
  more than \<open>k\<close> rows, and a partition of the fanout was in the fanout or is new.
\<close>

definition round :: "nat \<Rightarrow> ('w, 'r) PhjBuilder \<Rightarrow> ('w, 'r) PhjBuilder \<Rightarrow> bool" where
  "round k b b' =
     (join_op b' = join_op b \<and> spillable_buffer_size b' = spillable_buffer_size b
      \<and> closed b' = closed b \<and> filter_ctxs b' = filter_ctxs b
      \<and> null_aware_partition b' = null_aware_partition b
      \<and> (ht_ctx b' = None) = (ht_ctx b = None)
      \<and> (probe_stream_reservation b' = None) = (probe_stream_reservation b = None)
      \<and> length (all_partitions b) \<le> length (all_partitions b')
      \<and> grows k b b'
      \<and> (\<forall>j\<in>set (hash_partitions b'). j \<in> set (hash_partitions b) \<or> length (all_partitions b) \<le> j)
      \<and> (\<forall>i < length (all_partitions b). level (part b' i) = level (part b i)))"

text \<open>A spilled partition of three rows, not in any fanout.\<close>

definition spilled_one :: "(unit, nat) PhjBuilder" where
  "spilled_one = builder_of INNER_JOIN [partition_of 0 True [1, 2, 3]] []"

text \<open>The environment in which no stream can be pinned.\<close>

definition env_no_pin :: "(unit, nat) env" where
  "env_no_pin = env_ok\<lparr>PinStream := (\<lambda>w i. ((OK, False), w))\<rparr>"

text \<open>
  A builder with a min-max filter and a Bloom filter at level 0, and the environment in
  which every min-max filter is always true.
\<close>

definition env_always_true :: "(unit, nat) env" where
  "env_always_true = env_ok\<lparr>AlwaysTrue := (\<lambda>w f. True)\<rparr>"

definition min_max_ctx :: FilterContext where
  "min_max_ctx =
     \<lparr>filter_id = 1, is_bloom_filter = False, filter_size = 0, local_bloom_filter = None,
      local_min_max_filter = Some 7\<rparr>"

definition bloom_ctx :: FilterContext where
  "bloom_ctx =
     \<lparr>filter_id = 2, is_bloom_filter = True, filter_size = 64, local_bloom_filter = Some 3,
      local_min_max_filter = None\<rparr>"

definition two_filters :: "(unit, nat) PhjBuilder" where
  "two_filters =
     (builder_of INNER_JOIN [partition_of 0 False [1], partition_of 0 False [2]] [0, 1])
       \<lparr>filter_ctxs := [min_max_ctx, bloom_ctx]\<rparr>"



text \<open>
  Spilled partitions to repartition, in an environment where no stream can be pinned
  and the reservation is never short: one whose keys all fall in one partition of the
  next level, one whose keys do not, and one at the deepest level.
\<close>

definition env_repartition :: "(unit, nat) env" where
  "env_repartition =
     env_ok\<lparr>PinStream := (\<lambda>w i. ((OK, False), w)), GetUnusedReservation := (\<lambda>w. 1000)\<rparr>"



definition deepest :: "(unit, nat) PhjBuilder" where
  "deepest = builder_of INNER_JOIN [partition_of 15 True [0, 1, 2]] []"


text \<open>
  \<open>only_memory_failures e\<close>: spilling never returns an error, and an append that fails
  leaves the status OK, that is, it fails for lack of memory.
\<close>

definition only_memory_failures :: "('w, 'r) env \<Rightarrow> bool" where
  "only_memory_failures e =
     ((\<forall>w. fst (StartSpilling e w) = OK) \<and> (\<forall>w i m. fst (UnpinStream e w i m) = OK)
      \<and> (\<forall>w i r. snd (fst (AddRow e w i r)) = OK))"

text \<open>
  A world that counts the streams unpinned so far, with three partitions in memory, 4
  bytes pinned each: a row fits once two streams have been unpinned; or never; or the
  append fails for lack of memory until a stream has been unpinned and with an error
  afterwards.
\<close>

definition env_tight :: "(nat, nat) env" where
  "env_tight =
     env_ok\<lparr>UnpinStream := (\<lambda>w i m. (OK, Suc w)), AddRow := (\<lambda>w i r. ((2 \<le> w, OK), w)),
            BytesPinned := (\<lambda>w i. 4)\<rparr>"

definition env_never_fits :: "(nat, nat) env" where
  "env_never_fits = env_tight\<lparr>AddRow := (\<lambda>w i r. ((False, OK), w))\<rparr>"

definition env_io_error :: "(nat, nat) env" where
  "env_io_error =
     env_tight\<lparr>AddRow := (\<lambda>w i r. if w = 0 then ((False, OK), w)
                                     else ((False, ExtError 5), w))\<rparr>"

definition three_in_memory :: "(nat, nat) PhjBuilder" where
  "three_in_memory =
     \<lparr>join_op = INNER_JOIN, spillable_buffer_size = 8, is_not_distinct_from = [False],
      filter_ctxs = [], ht_ctx = Some 0, state = PARTITIONING_BUILD, non_empty_build = False,
      closed = False,
      all_partitions = [partition_of 0 False [1], partition_of 0 False [2], partition_of 0 False []],
      hash_partitions = [0, 1, 2], null_aware_partition = None,
      probe_stream_reservation = Some 0, filter_updates = [], world = 0\<rparr>"


text \<open>
  The three partitions when no stream has a byte pinned, and when the last of them has
  a hash table of 10 bytes.
\<close>

definition env_tables :: "(unit, nat) env" where
  "env_tables = env_mem\<lparr>ByteSize := (\<lambda>w i. 10)\<rparr>"

definition with_hash_table :: "(unit, nat) PhjBuilder" where
  "with_hash_table =
     builder_of INNER_JOIN
       [partition_of 0 False [1], partition_of 0 False [2, 3],
        (partition_of 0 False [4, 5])\<lparr>hash_tbl := Some HashTable\<rparr>]
       [0, 1, 2]"

text \<open>
  The builder with the two filters while it repartitions at level 1; the environment in
  which the reservation is never short; and the one in which the filter bank finds the
  false-positive rate of every Bloom filter too high.
\<close>

definition repartitioning_at_level_1 :: "(unit, nat) PhjBuilder" where
  "repartitioning_at_level_1 =
     (builder_of INNER_JOIN [partition_of 1 False [1], partition_of 1 False [2]] [0, 1])
       \<lparr>filter_ctxs := [min_max_ctx, bloom_ctx], ht_ctx := Some 1,
         state := REPARTITIONING_BUILD\<rparr>"

definition env_reserved :: "(unit, nat) env" where
  "env_reserved = env_ok\<lparr>GetUnusedReservation := (\<lambda>w. 1000)\<rparr>"

definition env_fp_rate_high :: "(unit, nat) env" where
  "env_fp_rate_high = env_ok\<lparr>FpRateTooHigh := (\<lambda>w s n. True), AlwaysTrue := (\<lambda>w f. True)\<rparr>"





subsection \<open>The calls of the join node\<close>


datatype Phase = Unopened | Building | Built | Probing | Failed | Closed





section \<open>Properties\<close>

subsection \<open>Which rows the hash table keeps\<close>

lemma foldl_or: "foldl (\<or>) a bs = (a \<or> True \<in> set bs)"
  by (induction bs arbitrary: a) auto

text \<open>
  Claim C7. \<open>HashTableStoresNulls\<close> is true exactly when the join operator is
  RIGHT_OUTER_JOIN, RIGHT_ANTI_JOIN or FULL_OUTER_JOIN, or at least one equality conjunct
  has the flag \<open>is_not_distinct_from\<close> set; in every other case it is false.
\<close>

theorem HashTableStoresNulls_iff:
  "HashTableStoresNulls b =
     (join_op b \<in> {RIGHT_OUTER_JOIN, RIGHT_ANTI_JOIN, FULL_OUTER_JOIN}
      \<or> (\<exists>i < length (is_not_distinct_from b). is_not_distinct_from b ! i))"
  by (auto simp: HashTableStoresNulls_def foldl_or in_set_conv_nth)

subsection \<open>The spill victim\<close>

text \<open>
  The loop over \<open>hash_partitions\<close> returns its start values when no partition that can
  spill frees more than \<open>max_freed_mem\<close>; otherwise it returns the first partition, in
  the order of the loop, among those that can spill and free the most.
\<close>

lemma largest_fold:
  "foldl (largest_step e b) (m, c) xs = (m', c') \<Longrightarrow>
     (m' = m \<and> c' = c \<and> (\<forall>j\<in>set xs. CanSpill (part b j) \<longrightarrow> freed_mem e b j \<le> m)) \<or>
     (\<exists>k < length xs. c' = Some (xs ! k) \<and> CanSpill (part b (xs ! k))
        \<and> freed_mem e b (xs ! k) = m' \<and> m < m'
        \<and> (\<forall>j\<in>set xs. CanSpill (part b j) \<longrightarrow> freed_mem e b j \<le> m')
        \<and> (\<forall>k' < k. CanSpill (part b (xs ! k')) \<longrightarrow> freed_mem e b (xs ! k') < m'))"
proof (induction xs arbitrary: m c)
  case Nil
  then show ?case by simp
next
  case (Cons x xs)
  obtain m1 c1 where step: "largest_step e b (m, c) x = (m1, c1)"
    by (cases "largest_step e b (m, c) x") auto
  have le: "m \<le> m1" and xle: "CanSpill (part b x) \<longrightarrow> freed_mem e b x \<le> m1"
    and same_or: "(m1 = m \<and> c1 = c) \<or> (c1 = Some x \<and> CanSpill (part b x) \<and> freed_mem e b x = m1 \<and> m < m1)"
    using step by (auto simp: largest_step_def split: if_splits)
  from Cons.prems step have "foldl (largest_step e b) (m1, c1) xs = (m', c')" by simp
  from Cons.IH[OF this] show ?case
  proof
    assume A: "m' = m1 \<and> c' = c1 \<and> (\<forall>j\<in>set xs. CanSpill (part b j) \<longrightarrow> freed_mem e b j \<le> m1)"
    from same_or show ?thesis
    proof
      assume "m1 = m \<and> c1 = c"
      with A xle show ?thesis by auto
    next
      assume B: "c1 = Some x \<and> CanSpill (part b x) \<and> freed_mem e b x = m1 \<and> m < m1"
      have "0 < length (x # xs) \<and> c' = Some ((x # xs) ! 0) \<and> CanSpill (part b ((x # xs) ! 0))
        \<and> freed_mem e b ((x # xs) ! 0) = m' \<and> m < m'
        \<and> (\<forall>j\<in>set (x # xs). CanSpill (part b j) \<longrightarrow> freed_mem e b j \<le> m')
        \<and> (\<forall>k' < 0. CanSpill (part b ((x # xs) ! k')) \<longrightarrow> freed_mem e b ((x # xs) ! k') < m')"
        using A B by auto
      then show ?thesis by blast
    qed
  next
    assume "\<exists>k<length xs. c' = Some (xs ! k) \<and> CanSpill (part b (xs ! k))
        \<and> freed_mem e b (xs ! k) = m' \<and> m1 < m'
        \<and> (\<forall>j\<in>set xs. CanSpill (part b j) \<longrightarrow> freed_mem e b j \<le> m')
        \<and> (\<forall>k' < k. CanSpill (part b (xs ! k')) \<longrightarrow> freed_mem e b (xs ! k') < m')"
    then obtain k where k: "k < length xs" "c' = Some (xs ! k)" "CanSpill (part b (xs ! k))"
        "freed_mem e b (xs ! k) = m'" "m1 < m'"
        "\<forall>j\<in>set xs. CanSpill (part b j) \<longrightarrow> freed_mem e b j \<le> m'"
        "\<forall>k' < k. CanSpill (part b (xs ! k')) \<longrightarrow> freed_mem e b (xs ! k') < m'"
      by blast
    have before: "\<forall>k' < Suc k. CanSpill (part b ((x # xs) ! k')) \<longrightarrow> freed_mem e b ((x # xs) ! k') < m'"
    proof (intro allI impI)
      fix k' assume "k' < Suc k" "CanSpill (part b ((x # xs) ! k'))"
      then show "freed_mem e b ((x # xs) ! k') < m'"
        using k(5,7) xle by (cases k') auto
    qed
    have "Suc k < length (x # xs) \<and> c' = Some ((x # xs) ! Suc k) \<and> CanSpill (part b ((x # xs) ! Suc k))
        \<and> freed_mem e b ((x # xs) ! Suc k) = m' \<and> m < m'
        \<and> (\<forall>j\<in>set (x # xs). CanSpill (part b j) \<longrightarrow> freed_mem e b j \<le> m')"
      using k le xle by auto
    with before show ?thesis by blast
  qed
qed

subsection \<open>Basic facts\<close>

lemma part_set_part:
  "part (set_part j p b) i = (if i = j \<and> j < length (all_partitions b) then p else part b i)"
  by (auto simp: part_def set_part_def)

lemma part_world [simp]: "part (b\<lparr>world := w\<rparr>) i = part b i"
  by (simp add: part_def)

lemma part_ht_ctx [simp]: "part (b\<lparr>ht_ctx := l\<rparr>) i = part b i"
  by (simp add: part_def)

lemma part_call [simp]: "part (call e c b) i = part b i"
  by (simp add: part_def call_def)

lemma set_part_fields [simp]:
  "length (all_partitions (set_part i p b)) = length (all_partitions b)"
  "join_op (set_part i p b) = join_op b"
  "spillable_buffer_size (set_part i p b) = spillable_buffer_size b"
  "is_not_distinct_from (set_part i p b) = is_not_distinct_from b"
  "filter_ctxs (set_part i p b) = filter_ctxs b"
  "ht_ctx (set_part i p b) = ht_ctx b"
  "state (set_part i p b) = state b"
  "non_empty_build (set_part i p b) = non_empty_build b"
  "closed (set_part i p b) = closed b"
  "hash_partitions (set_part i p b) = hash_partitions b"
  "null_aware_partition (set_part i p b) = null_aware_partition b"
  "probe_stream_reservation (set_part i p b) = probe_stream_reservation b"
  "filter_updates (set_part i p b) = filter_updates b"
  "world (set_part i p b) = world b"
  by (simp_all add: set_part_def)

lemma call_fields [simp]:
  "all_partitions (call e c b) = all_partitions b"
  "join_op (call e c b) = join_op b"
  "spillable_buffer_size (call e c b) = spillable_buffer_size b"
  "is_not_distinct_from (call e c b) = is_not_distinct_from b"
  "filter_ctxs (call e c b) = filter_ctxs b"
  "ht_ctx (call e c b) = ht_ctx b"
  "state (call e c b) = state b"
  "non_empty_build (call e c b) = non_empty_build b"
  "closed (call e c b) = closed b"
  "hash_partitions (call e c b) = hash_partitions b"
  "null_aware_partition (call e c b) = null_aware_partition b"
  "probe_stream_reservation (call e c b) = probe_stream_reservation b"
  "filter_updates (call e c b) = filter_updates b"
  "world (call e c b) = effect e c (world b)"
  by (simp_all add: call_def)


lemma frame_refl [simp]: "frame b b"
  by (simp add: frame_def)

lemma frame_trans: "frame b b1 \<Longrightarrow> frame b1 b2 \<Longrightarrow> frame b b2"
  by (simp add: frame_def)

lemma grows_refl [simp]: "grows k b b"
  by (simp add: grows_def)

lemma grows_trans: "grows k b b1 \<Longrightarrow> grows l b1 b2 \<Longrightarrow> grows (k + l) b b2"
  unfolding grows_def
proof
  fix i assume a: "\<forall>i. nrows (part b1 i) \<le> nrows (part b i) + k"
    and c: "\<forall>i. nrows (part b2 i) \<le> nrows (part b1 i) + l"
  from a have "nrows (part b1 i) \<le> nrows (part b i) + k" by blast
  moreover from c have "nrows (part b2 i) \<le> nrows (part b1 i) + l" by blast
  ultimately show "nrows (part b2 i) \<le> nrows (part b i) + (k + l)" by linarith
qed

lemma grows_trans0: "grows 0 b b1 \<Longrightarrow> grows k b1 b2 \<Longrightarrow> grows k b b2"
  using grows_trans[of 0 b b1 k b2] by simp

lemma grows_trans0': "grows k b b1 \<Longrightarrow> grows 0 b1 b2 \<Longrightarrow> grows k b b2"
  using grows_trans[of k b b1 0 b2] by simp

lemma frame_world [simp]: "frame b (b1\<lparr>world := w\<rparr>) = frame b b1"
  "frame (b\<lparr>world := w\<rparr>) b1 = frame b b1"
  by (simp_all add: frame_def)

lemma grows_world [simp]: "grows k b (b1\<lparr>world := w\<rparr>) = grows k b b1"
  "grows k (b\<lparr>world := w\<rparr>) b1 = grows k b b1"
  by (simp_all add: grows_def)

lemma frame_call [simp]: "frame b (call e c b1) = frame b b1"
  by (simp add: frame_def)

lemma grows_call [simp]: "grows k b (call e c b1) = grows k b b1"
  by (simp add: grows_def)

lemma frame_set_part:
  "level p = level (part b i) \<Longrightarrow> frame b (set_part i p b)"
  by (simp add: frame_def part_set_part)

lemma grows_set_part:
  "nrows p \<le> nrows (part b i) + k \<Longrightarrow> grows k b (set_part i p b)"
  by (simp add: grows_def part_set_part)

subsection \<open>Partition_Close, Spill\<close>

lemma Partition_Close_frame: "frame b (Partition_Close e i batch b)"
  by (auto simp: Partition_Close_def Let_def frame_def part_set_part)

lemma Partition_Close_grows: "grows 0 b (Partition_Close e i batch b)"
  by (auto simp: Partition_Close_def Let_def grows_def part_set_part nrows_def)

lemma Partition_Close_ht_ctx [simp]: "ht_ctx (Partition_Close e i batch b) = ht_ctx b"
  by (auto simp: Partition_Close_def Let_def)

lemma Partition_Close_reservation [simp]:
  "probe_stream_reservation (Partition_Close e i batch b) = probe_stream_reservation b"
  by (auto simp: Partition_Close_def Let_def)

lemma Spill_frame: "frame b (snd (Spill e i mode b))"
  by (auto simp: Spill_def Let_def frame_def part_set_part split: prod.splits)

lemma Spill_grows: "grows 0 b (snd (Spill e i mode b))"
  by (auto simp: Spill_def Let_def grows_def part_set_part nrows_def split: prod.splits)

lemma Spill_ht_ctx [simp]: "ht_ctx (snd (Spill e i mode b)) = ht_ctx b"
  by (auto simp: Spill_def Let_def split: prod.splits)

lemma Spill_reservation [simp]:
  "probe_stream_reservation (snd (Spill e i mode b)) = probe_stream_reservation b"
  by (auto simp: Spill_def Let_def split: prod.splits)

subsection \<open>BuildHashTable\<close>

lemma not_built_frame: "frame b (snd (not_built e i st b))"
  by (auto simp: not_built_def frame_def part_set_part)

lemma not_built_grows: "grows 0 b (snd (not_built e i st b))"
  by (auto simp: not_built_def grows_def part_set_part nrows_def)

lemma not_built_reservation [simp]:
  "probe_stream_reservation (snd (not_built e i st b)) = probe_stream_reservation b"
  "ht_ctx (snd (not_built e i st b)) = ht_ctx b"
  by (auto simp: not_built_def)

lemma finish_build_frame: "frame b (snd (finish_build e i b x))"
  by (cases x) (auto simp: finish_build_def not_built_frame intro!: frame_set_part)

lemma finish_build_grows: "grows 0 b (snd (finish_build e i b x))"
  by (cases x) (auto simp: finish_build_def not_built_grows nrows_def intro!: grows_set_part)

lemma finish_build_reservation [simp]:
  "probe_stream_reservation (snd (finish_build e i b x)) = probe_stream_reservation b"
  "ht_ctx (snd (finish_build e i b x)) = ht_ctx b"
  by (cases x; simp add: finish_build_def)+

lemma insert_rows_frame: "frame b (snd (insert_rows e i b))"
  using not_built_frame[of "b\<lparr>world := w\<rparr>" e i for w]
    finish_build_frame[of "b\<lparr>world := w\<rparr>" e i for w]
  by (auto simp: insert_rows_def Let_def split: prod.splits)

lemma insert_rows_grows: "grows 0 b (snd (insert_rows e i b))"
  using not_built_grows[of "b\<lparr>world := w\<rparr>" e i for w]
    finish_build_grows[of "b\<lparr>world := w\<rparr>" e i for w]
  by (auto simp: insert_rows_def Let_def split: prod.splits)

lemma insert_rows_reservation [simp]:
  "probe_stream_reservation (snd (insert_rows e i b)) = probe_stream_reservation b"
  "ht_ctx (snd (insert_rows e i b)) = ht_ctx b"
  by (auto simp: insert_rows_def Let_def split: prod.splits)

lemma init_hash_tbl_frame: "frame b (snd (init_hash_tbl e i b))"
proof -
  define b1 where "b1 = set_part i ((part b i)\<lparr>hash_tbl := Some HashTable\<rparr>) b"
  have 1: "frame b b1" unfolding b1_def by (rule frame_set_part) simp
  have "frame b1 (snd (init_hash_tbl e i b))"
    using not_built_frame[of "b1\<lparr>world := w\<rparr>" e i for w]
      insert_rows_frame[of "b1\<lparr>world := w\<rparr>" e i for w]
    by (auto simp: init_hash_tbl_def Let_def b1_def[symmetric] split: prod.splits)
  with 1 show ?thesis by (rule frame_trans)
qed

lemma init_hash_tbl_grows: "grows 0 b (snd (init_hash_tbl e i b))"
proof -
  define b1 where "b1 = set_part i ((part b i)\<lparr>hash_tbl := Some HashTable\<rparr>) b"
  have 1: "grows 0 b b1" unfolding b1_def by (rule grows_set_part) (simp add: nrows_def)
  have "grows 0 b1 (snd (init_hash_tbl e i b))"
    using not_built_grows[of "b1\<lparr>world := w\<rparr>" e i for w]
      insert_rows_grows[of "b1\<lparr>world := w\<rparr>" e i for w]
    by (auto simp: init_hash_tbl_def Let_def b1_def[symmetric] split: prod.splits)
  with 1 show ?thesis by (rule grows_trans0)
qed

lemma init_hash_tbl_reservation [simp]:
  "probe_stream_reservation (snd (init_hash_tbl e i b)) = probe_stream_reservation b"
  "ht_ctx (snd (init_hash_tbl e i b)) = ht_ctx b"
  by (auto simp: init_hash_tbl_def Let_def split: prod.splits)

lemma frame_ht_ctx:
  "(l = None) = (ht_ctx b = None) \<Longrightarrow> frame (b\<lparr>ht_ctx := l\<rparr>) b1 = frame b b1"
  by (auto simp: frame_def)

lemma grows_ht_ctx [simp]: "grows k (b\<lparr>ht_ctx := l\<rparr>) b1 = grows k b b1"
  by (simp add: grows_def)

lemma BuildHashTable_frame: "frame b (snd (BuildHashTable e i b))"
  using init_hash_tbl_frame[of "b\<lparr>world := w, ht_ctx := map_option (\<lambda>_. l) (ht_ctx b)\<rparr>" e i for w l]
  by (auto simp: BuildHashTable_def Let_def frame_ht_ctx split: prod.splits)

lemma BuildHashTable_grows: "grows 0 b (snd (BuildHashTable e i b))"
  using init_hash_tbl_grows[of "b\<lparr>world := w, ht_ctx := map_option (\<lambda>_. l) (ht_ctx b)\<rparr>" e i for w l]
  by (auto simp: BuildHashTable_def Let_def split: prod.splits)

lemma BuildHashTable_reservation [simp]:
  "probe_stream_reservation (snd (BuildHashTable e i b)) = probe_stream_reservation b"
  by (auto simp: BuildHashTable_def Let_def split: prod.splits)

subsection \<open>SpillPartition and the appends\<close>

lemma quiet_refl [simp]: "quiet k b b"
  by (simp add: quiet_def)

lemma quiet_trans: "quiet k b b1 \<Longrightarrow> quiet l b1 b2 \<Longrightarrow> quiet (k + l) b b2"
  by (auto simp: quiet_def intro: frame_trans grows_trans)

lemma quiet_trans0: "quiet 0 b b1 \<Longrightarrow> quiet k b1 b2 \<Longrightarrow> quiet k b b2"
  using quiet_trans[of 0 b b1 k b2] by simp




lemma quiet_world [simp]: "quiet k b (b1\<lparr>world := w\<rparr>) = quiet k b b1"
  "quiet k (b\<lparr>world := w\<rparr>) b1 = quiet k b b1"
  by (simp_all add: quiet_def)

lemma quiet_call [simp]: "quiet k b (call e c b1) = quiet k b b1"
  by (simp add: quiet_def)

lemma Spill_quiet: "Spill e i mode b = (st, b') \<Longrightarrow> quiet 0 b b'"
  using Spill_frame[of b e i mode] Spill_grows[of b e i mode] Spill_ht_ctx[of e i mode b]
    Spill_reservation[of e i mode b] by (simp add: quiet_def)

lemma Partition_Close_quiet: "quiet 0 b (Partition_Close e i batch b)"
  by (simp add: quiet_def Partition_Close_frame Partition_Close_grows)

lemma BuildHashTable_eq:
  assumes "BuildHashTable e i b = (r, b')"
  shows "frame b b'" "grows 0 b b'"
    "probe_stream_reservation b' = probe_stream_reservation b"
  using BuildHashTable_frame[of b e i] BuildHashTable_grows[of b e i]
    BuildHashTable_reservation[of e i b] assms by simp_all

lemma SpillPartition_quiet: "SpillPartition e mode b = (r, b') \<Longrightarrow> quiet 0 b b'"
  by (auto simp: SpillPartition_def split: option.splits prod.splits if_splits dest: Spill_quiet)







lemma CloseOrUnpin_quiet: "CloseOrUnpin e is b = (st, b') \<Longrightarrow> quiet 0 b b'"
proof (induction "is" arbitrary: b)
  case Nil
  then show ?case by simp
next
  case (Cons i rest)
  show ?case
  proof (cases "num_rows (the (build_rows (part b i))) = 0")
    case True
    with Cons.prems have "CloseOrUnpin e rest (Partition_Close e i False b) = (st, b')" by simp
    from Cons.IH[OF this] Partition_Close_quiet[of b e i False] show ?thesis
      by (blast intro: quiet_trans0)
  next
    case False
    show ?thesis
    proof (cases "is_spilled (part b i)")
      case s: False
      with False Cons.prems have "CloseOrUnpin e rest b = (st, b')" by simp
      from Cons.IH[OF this] show ?thesis .
    next
      case s: True
      obtain st1 w where u: "UnpinStream e (world b) i UNPIN_ALL = (st1, w)"
        by (cases "UnpinStream e (world b) i UNPIN_ALL") auto
      show ?thesis
      proof (cases "st1 = OK")
        case True
        with False s u Cons.prems have "CloseOrUnpin e rest (b\<lparr>world := w\<rparr>) = (st, b')" by simp
        from Cons.IH[OF this] show ?thesis by simp
      next
        case ne: False
        with False s u Cons.prems have "b' = b\<lparr>world := w\<rparr>" by simp
        then show ?thesis by simp
      qed
    qed
  qed
qed

lemma ReserveLoop_quiet: "ReserveLoop e a b = (r, b') \<Longrightarrow> quiet 0 b b'"
proof (induction e a b arbitrary: r b' rule: ReserveLoop.induct)
  case (1 e a b)
  show ?case
  proof (cases "a > GetUnusedReservation e (world b)")
    case False
    with "1.prems" show ?thesis by (subst (asm) ReserveLoop.simps) simp
  next
    case True
    obtain st sp b1 where s: "SpillPartition e UNPIN_ALL b = ((st, sp), b1)"
      by (cases "SpillPartition e UNPIN_ALL b") auto
    have q: "quiet 0 b b1" using s by (rule SpillPartition_quiet)
    show ?thesis
    proof (cases "st = OK")
      case ne: False
      with True s "1.prems" have "b' = b1" by (subst (asm) ReserveLoop.simps) simp
      with q show ?thesis by simp
    next
      case ok: True
      with True s "1.prems" have "ReserveLoop e
          (if sp \<noteq> null_aware_partition b1 then a + spillable_buffer_size b1 else a) b1 = (r, b')"
        by (subst (asm) ReserveLoop.simps) simp
      from "1.IH"[OF True s[symmetric] refl _ this] ok q show ?thesis
        by (auto intro: quiet_trans0)
    qed
  qed
qed

subsection \<open>The end of a build round\<close>

lemma frame_reservation:
  "(r = None) = (probe_stream_reservation b1 = None) \<Longrightarrow>
   frame b (b1\<lparr>probe_stream_reservation := r\<rparr>) = frame b b1"
  by (auto simp: frame_def part_def)

lemma part_reservation [simp]: "part (b\<lparr>probe_stream_reservation := r\<rparr>) i = part b i"
  by (simp add: part_def)

lemma grows_reservation [simp]:
  "grows k b (b1\<lparr>probe_stream_reservation := r\<rparr>) = grows k b b1"
  by (simp add: grows_def)

lemma SaveReservation_sub_frame:
  "frame b (SaveReservation_sub e bytes b)" "grows 0 b (SaveReservation_sub e bytes b)"
  "ht_ctx (SaveReservation_sub e bytes b) = ht_ctx b"
  "probe_stream_reservation (SaveReservation_sub e bytes b)
     = map_option (\<lambda>r. r + bytes) (probe_stream_reservation b)"
  by (simp_all add: SaveReservation_sub_def frame_reservation)

lemma RestoreReservation_sub_frame:
  "frame b (RestoreReservation_sub e bytes b)" "grows 0 b (RestoreReservation_sub e bytes b)"
  "ht_ctx (RestoreReservation_sub e bytes b) = ht_ctx b"
  "probe_stream_reservation (RestoreReservation_sub e bytes b)
     = map_option (\<lambda>r. r - bytes) (probe_stream_reservation b)"
  by (simp_all add: RestoreReservation_sub_def frame_reservation)

lemma ReserveProbeBuffers_eq:
  assumes "ReserveProbeBuffers e input_is_spilled b = (st, b')"
  shows "frame b b'" "grows 0 b b'" "ht_ctx b' = ht_ctx b"
proof -
  define a where "a = (GetNumSpilledPartitions b (hash_partitions b)
      + (if input_is_spilled then 1 else 0)) * spillable_buffer_size b
      - the (probe_stream_reservation b)"
  obtain st1 addtl b1 where l: "ReserveLoop e a b = ((st1, addtl), b1)"
    by (cases "ReserveLoop e a b") auto
  have q: "quiet 0 b b1" using l by (rule ReserveLoop_quiet)
  have b': "b' = b1 \<or> b' = SaveReservation_sub e addtl b1"
    using assms l by (auto simp: ReserveProbeBuffers_def Let_def a_def split: if_splits)
  from q have 1: "frame b b1" "grows 0 b b1" "ht_ctx b1 = ht_ctx b" by (simp_all add: quiet_def)
  from b' 1 show "frame b b'"
    by (auto intro: frame_trans[OF _ SaveReservation_sub_frame(1)])
  from b' 1 show "grows 0 b b'"
    by (auto intro: grows_trans0[OF _ SaveReservation_sub_frame(2)])
  from b' 1 show "ht_ctx b' = ht_ctx b"
    by (auto simp: SaveReservation_sub_frame)
qed

lemma BuildLoop_eq:
  "BuildLoop e is b = (st, b') \<Longrightarrow>
   frame b b' \<and> grows 0 b b' \<and> probe_stream_reservation b' = probe_stream_reservation b"
proof (induction "is" arbitrary: b)
  case Nil
  then show ?case by simp
next
  case (Cons i rest)
  show ?case
  proof (cases "IsClosed (part b i) \<or> is_spilled (part b i)")
    case True
    with Cons.prems have "BuildLoop e rest b = (st, b')" by auto
    from Cons.IH[OF this] show ?thesis .
  next
    case False
    obtain st1 built b1 where h: "BuildHashTable e i b = ((st1, built), b1)"
      by (cases "BuildHashTable e i b") auto
    note h1 = BuildHashTable_eq[OF h]
    show ?thesis
    proof (cases "st1 = OK")
      case ne: False
      with False h Cons.prems have "b' = b1" by auto
      with h1 show ?thesis by simp
    next
      case ok: True
      show ?thesis
      proof (cases built)
        case True
        with False h ok Cons.prems have "BuildLoop e rest b1 = (st, b')" by auto
        from Cons.IH[OF this] h1 show ?thesis by (auto intro: frame_trans grows_trans0)
      next
        case nb: False
        obtain st2 b2 where s: "Spill e i UNPIN_ALL b1 = (st2, b2)"
          by (cases "Spill e i UNPIN_ALL b1") auto
        from Spill_quiet[OF s] have q: "frame b1 b2" "grows 0 b1 b2"
          "probe_stream_reservation b2 = probe_stream_reservation b1" by (simp_all add: quiet_def)
        show ?thesis
        proof (cases "st2 = OK")
          case True
          with False h ok nb s Cons.prems have "BuildLoop e rest b2 = (st, b')" by auto
          from Cons.IH[OF this] h1 q show ?thesis
            by (auto intro: frame_trans grows_trans0)
        next
          case False
          with \<open>\<not> (IsClosed (part b i) \<or> is_spilled (part b i))\<close> h ok nb s Cons.prems
          have "b' = b2" by auto
          with h1 q show ?thesis by (auto intro: frame_trans grows_trans0)
        qed
      qed
    qed
  qed
qed

lemma BuildHashTablesAndReserveProbeBuffers_eq:
  assumes "BuildHashTablesAndReserveProbeBuffers e b = (st, b')"
  shows "frame b b'" "grows 0 b b'"
proof -
  obtain st1 b1 where c: "CloseOrUnpin e (fanout_partitions e b) b = (st1, b1)"
    by (cases "CloseOrUnpin e (fanout_partitions e b) b") auto
  from CloseOrUnpin_quiet[OF c] have 1: "frame b b1" "grows 0 b b1" by (simp_all add: quiet_def)
  obtain st2 b2 where r: "ReserveProbeBuffers e (the (ht_ctx b1) > 0) b1 = (st2, b2)"
    by (cases "ReserveProbeBuffers e (the (ht_ctx b1) > 0) b1") auto
  note 2 = ReserveProbeBuffers_eq(1,2)[OF r]
  obtain st3 b3 where l: "BuildLoop e (fanout_partitions e b2) b2 = (st3, b3)"
    by (cases "BuildLoop e (fanout_partitions e b2) b2") auto
  from BuildLoop_eq[OF l] have 3: "frame b2 b3" "grows 0 b2 b3" by simp_all
  obtain st4 b4 where r2: "ReserveProbeBuffers e (the (ht_ctx b1) > 0) b3 = (st4, b4)"
    by (cases "ReserveProbeBuffers e (the (ht_ctx b1) > 0) b3") auto
  note 4 = ReserveProbeBuffers_eq(1,2)[OF r2]
  have "b' = b1 \<or> b' = b2 \<or> b' = b3 \<or> b' = b4"
    using assms c r l r2
    by (auto simp: BuildHashTablesAndReserveProbeBuffers_def Let_def split: if_splits)
  then show "frame b b'" "grows 0 b b'"
    using 1 2 3 4 by (auto intro: frame_trans grows_trans0)
qed

subsection \<open>Publishing and FlushFinal\<close>

lemma publish_step_only:
  "published_only b (snd acc) \<Longrightarrow> published_only b (snd (publish_step e n acc ctx))"
  by (simp add: published_only_def publish_step_def Let_def)

lemma publish_fold_only:
  "published_only b (snd acc) \<Longrightarrow>
   published_only b (snd (foldl (publish_step e n) acc ctxs))"
proof (induction ctxs arbitrary: acc)
  case Nil
  then show ?case by simp
next
  case (Cons ctx ctxs)
  from Cons.IH[OF publish_step_only[OF Cons.prems]] show ?case by simp
qed

lemma PublishRuntimeFilters_only: "published_only b (snd (PublishRuntimeFilters e n b))"
  unfolding PublishRuntimeFilters_def
  by (rule publish_fold_only) (simp add: published_only_def)

lemma publish_at_level_0_fields:
  "join_op (publish_at_level_0 e n b) = join_op b"
  "spillable_buffer_size (publish_at_level_0 e n b) = spillable_buffer_size b"
  "is_not_distinct_from (publish_at_level_0 e n b) = is_not_distinct_from b"
  "filter_ctxs (publish_at_level_0 e n b) = filter_ctxs b"
  "ht_ctx (publish_at_level_0 e n b) = ht_ctx b"
  "state (publish_at_level_0 e n b) = state b"
  "closed (publish_at_level_0 e n b) = closed b"
  "all_partitions (publish_at_level_0 e n b) = all_partitions b"
  "hash_partitions (publish_at_level_0 e n b) = hash_partitions b"
  "null_aware_partition (publish_at_level_0 e n b) = null_aware_partition b"
  "probe_stream_reservation (publish_at_level_0 e n b) = probe_stream_reservation b"
  "part (publish_at_level_0 e n b) i = part b i"
  using PublishRuntimeFilters_only[of b e n]
  by (simp_all add: publish_at_level_0_def published_only_def Let_def part_def)

lemma publish_at_level_0_flag:
  "non_empty_build (publish_at_level_0 e n b)
     = (if the (ht_ctx b) = 0 then (non_empty_build b \<or> 0 < n) else non_empty_build b)"
  "the (ht_ctx b) \<noteq> 0 \<Longrightarrow> filter_updates (publish_at_level_0 e n b) = filter_updates b"
  using PublishRuntimeFilters_only[of b e n]
  by (simp_all add: publish_at_level_0_def published_only_def Let_def)

lemma UpdateState_fields [simp]:
  "join_op (UpdateState s b) = join_op b"
  "spillable_buffer_size (UpdateState s b) = spillable_buffer_size b"
  "is_not_distinct_from (UpdateState s b) = is_not_distinct_from b"
  "filter_ctxs (UpdateState s b) = filter_ctxs b"
  "ht_ctx (UpdateState s b) = ht_ctx b"
  "state (UpdateState s b) = s"
  "non_empty_build (UpdateState s b) = non_empty_build b"
  "closed (UpdateState s b) = closed b"
  "all_partitions (UpdateState s b) = all_partitions b"
  "hash_partitions (UpdateState s b) = hash_partitions b"
  "null_aware_partition (UpdateState s b) = null_aware_partition b"
  "probe_stream_reservation (UpdateState s b) = probe_stream_reservation b"
  "filter_updates (UpdateState s b) = filter_updates b"
  "world (UpdateState s b) = world b"
  "part (UpdateState s b) i = part b i"
  "grows k b0 (UpdateState s b) = grows k b0 b"
  by (simp_all add: UpdateState_def part_def grows_def)

text \<open>What \<open>FlushFinal\<close> leaves alone.\<close>

lemma FlushFinal_eq:
  assumes "FlushFinal e b = (st, b')"
  shows "hash_partitions b' = hash_partitions b"
    "null_aware_partition b' = null_aware_partition b"
    "join_op b' = join_op b" "closed b' = closed b" "filter_ctxs b' = filter_ctxs b"
    "spillable_buffer_size b' = spillable_buffer_size b"
    "length (all_partitions b') = length (all_partitions b)"
    "(ht_ctx b' = None) = (ht_ctx b = None)"
    "(probe_stream_reservation b' = None) = (probe_stream_reservation b = None)"
    "non_empty_build b' = non_empty_build (publish_at_level_0 e (count_build_rows b) b)"
    "filter_updates b' = filter_updates (publish_at_level_0 e (count_build_rows b) b)"
    "\<forall>i. level (part b' i) = level (part b i)"
    "grows 0 b b'"
proof -
  define b1 where "b1 = publish_at_level_0 e (count_build_rows b) b"
  note 1 = publish_at_level_0_fields[of e "count_build_rows b" b, folded b1_def]
  define sp where "sp = (if null_aware_partition b1 \<noteq> None
                  \<and> is_spilled (part b1 (the (null_aware_partition b1)))
               then Spill e (the (null_aware_partition b1)) UNPIN_ALL b1
               else (OK, b1))"
  obtain st2 b2 where s: "sp = (st2, b2)" by (cases sp) auto
  have q: "quiet 0 b1 b2"
    using s Spill_quiet[of e _ UNPIN_ALL b1 st2 b2] by (auto simp: sp_def split: if_splits)
  then have 2: "frame b1 b2" "grows 0 b1 b2" by (simp_all add: quiet_def)
  obtain st3 b3 where h: "BuildHashTablesAndReserveProbeBuffers e b2 = (st3, b3)"
    by (cases "BuildHashTablesAndReserveProbeBuffers e b2") auto
  note 3 = BuildHashTablesAndReserveProbeBuffers_eq[OF h]
  have b': "b' = b2 \<or> b' = b3 \<or> b' = UpdateState PARTITIONING_PROBE b3
      \<or> b' = UpdateState REPARTITIONING_PROBE b3"
  proof -
    have "FlushFinal e b = (case sp of (st2, b2) \<Rightarrow>
           if st2 \<noteq> OK then (st2, b2)
           else (case BuildHashTablesAndReserveProbeBuffers e b2 of (st3, b3) \<Rightarrow>
             if st3 \<noteq> OK then (st3, b3)
             else if state b3 = PARTITIONING_BUILD
             then (OK, UpdateState PARTITIONING_PROBE b3)
             else (OK, UpdateState REPARTITIONING_PROBE b3)))"
      unfolding FlushFinal_def Let_def b1_def sp_def by (rule refl)
    with assms s h show ?thesis by (auto split: if_splits)
  qed
  have f13: "frame b1 b3" using 2 3 by (blast intro: frame_trans)
  have g13: "grows 0 b1 b3" using 2 3 by (blast intro: grows_trans0)
  have g1: "grows 0 b b1" by (simp add: grows_def 1)
  note f2 = 2(1)[unfolded frame_def] and f3 = f13[unfolded frame_def]
  have gr: "grows 0 b1 b'"
    using b' 2(2) g13 by (elim disjE) simp_all
  have x: "hash_partitions b' = hash_partitions b1"
    "null_aware_partition b' = null_aware_partition b1"
    "join_op b' = join_op b1" "closed b' = closed b1" "filter_ctxs b' = filter_ctxs b1"
    "spillable_buffer_size b' = spillable_buffer_size b1"
    "length (all_partitions b') = length (all_partitions b1)"
    "(ht_ctx b' = None) = (ht_ctx b1 = None)"
    "(probe_stream_reservation b' = None) = (probe_stream_reservation b1 = None)"
    "non_empty_build b' = non_empty_build b1"
    "filter_updates b' = filter_updates b1"
    "\<forall>i. level (part b' i) = level (part b1 i)"
    using b' f2 f3 by (elim disjE; simp)+
  show "hash_partitions b' = hash_partitions b"
    "null_aware_partition b' = null_aware_partition b"
    "join_op b' = join_op b" "closed b' = closed b" "filter_ctxs b' = filter_ctxs b"
    "spillable_buffer_size b' = spillable_buffer_size b"
    "length (all_partitions b') = length (all_partitions b)"
    "(ht_ctx b' = None) = (ht_ctx b = None)"
    "(probe_stream_reservation b' = None) = (probe_stream_reservation b = None)"
    "non_empty_build b' = non_empty_build (publish_at_level_0 e (count_build_rows b) b)"
    "filter_updates b' = filter_updates (publish_at_level_0 e (count_build_rows b) b)"
    "\<forall>i. level (part b' i) = level (part b i)"
    using x unfolding b1_def[symmetric] by (simp_all add: 1)
  show "grows 0 b b'" using g1 gr by (rule grows_trans0)
qed

subsection \<open>Rounds\<close>

lemma round_refl [simp]: "round k b b"
  by (simp add: round_def)






lemma round_world [simp]: "round k b (b1\<lparr>world := w\<rparr>) = round k b b1"
  "round k (b\<lparr>world := w\<rparr>) b1 = round k b b1"
  by (simp_all add: round_def)










subsection \<open>The flag is_spilled\<close>

lemma is_spilled_valid: "is_spilled (part b i) \<Longrightarrow> i < length (all_partitions b)"
  by (auto simp: part_def split: if_splits)

lemma Spill_is_spilled:
  "is_spilled (part b i) \<Longrightarrow> is_spilled (part (snd (Spill e j mode b)) i)"
  by (auto simp: Spill_def Let_def part_set_part split: prod.splits)

lemma Partition_Close_is_spilled:
  "is_spilled (part (Partition_Close e j batch b) i) = is_spilled (part b i)"
  by (auto simp: Partition_Close_def Let_def part_set_part)

lemma stream_AddRow_is_spilled:
  "is_spilled (part (snd (stream_AddRow e j row b)) i) = is_spilled (part b i)"
  by (auto simp: stream_AddRow_def Let_def part_set_part split: prod.splits)

lemma InsertLoop_Returned: "InsertLoop e i bs w = (Returned st, w') \<Longrightarrow> st \<noteq> OK"
  by (induction bs arbitrary: w) (auto split: prod.splits if_splits)

lemma not_built_result:
  assumes "not_built e j st0 b = ((st, built), b')"
  shows "\<not> built \<and> is_spilled (part b' i) = is_spilled (part b i)"
  using assms by (auto simp: not_built_def part_set_part split: if_splits)

lemma finish_build_result:
  assumes "finish_build e j b x = ((st, built), b')"
    and "x = Returned st \<longrightarrow> st \<noteq> OK"
  shows "is_spilled (part b' i) =
           (if st = OK \<and> built \<and> i = j \<and> j < length (all_partitions b) then False
            else is_spilled (part b i))"
  using assms
  by (cases x) (auto simp: finish_build_def not_built_def part_set_part split: if_splits)

lemma insert_rows_result:
  assumes "insert_rows e j b = ((st, built), b')"
  shows "is_spilled (part b' i) =
           (if st = OK \<and> built \<and> i = j \<and> j < length (all_partitions b) then False
            else is_spilled (part b i))"
proof -
  obtain st1 s1 w1 where p: "PrepareForRead e (world b) j False = ((st1, s1), w1)"
    by (cases "PrepareForRead e (world b) j False") auto
  show ?thesis
  proof (cases "st1 = OK")
    case False
    with assms p have "not_built e j st1 (b\<lparr>world := w1\<rparr>) = ((st, built), b')"
      by (simp add: insert_rows_def Let_def)
    from not_built_result[OF this, of i] show ?thesis by simp
  next
    case True
    obtain x w2 where l: "InsertLoop e j (batches_of (batch_size e) (the (build_rows (part b j)))) w1
        = (x, w2)"
    by (cases "InsertLoop e j (batches_of (batch_size e) (the (build_rows (part b j)))) w1") auto
    with assms p True have f: "finish_build e j (b\<lparr>world := w2\<rparr>) x = ((st, built), b')"
      by (simp add: insert_rows_def Let_def)
    have "x = Returned st \<longrightarrow> st \<noteq> OK"
    proof
      assume "x = Returned st"
      with l have "InsertLoop e j (batches_of (batch_size e) (the (build_rows (part b j)))) w1
          = (Returned st, w2)" by simp
      then show "st \<noteq> OK" by (rule InsertLoop_Returned)
    qed
    from finish_build_result[OF f this, of i] show ?thesis by simp
  qed
qed

lemma init_hash_tbl_result:
  assumes "init_hash_tbl e j b = ((st, built), b')"
  shows "is_spilled (part b' i) =
           (if st = OK \<and> built \<and> i = j \<and> j < length (all_partitions b) then False
            else is_spilled (part b i))"
proof -
  define b1 where "b1 = set_part j ((part b j)\<lparr>hash_tbl := Some HashTable\<rparr>) b"
  have b1: "is_spilled (part b1 i) = is_spilled (part b i)"
    "length (all_partitions b1) = length (all_partitions b)"
    by (auto simp: b1_def part_set_part)
  obtain st1 s1 w1 where p: "HashTableInit e (world b1) j = ((st1, s1), w1)"
    by (cases "HashTableInit e (world b1) j") auto
  show ?thesis
  proof (cases "st1 \<noteq> OK \<or> \<not> s1")
    case True
    with assms p have "not_built e j st1 (b1\<lparr>world := w1\<rparr>) = ((st, built), b')"
      by (auto simp: init_hash_tbl_def Let_def b1_def[symmetric])
    from not_built_result[OF this, of i] b1 show ?thesis by simp
  next
    case False
    with assms p have "insert_rows e j (b1\<lparr>world := w1\<rparr>) = ((st, built), b')"
      by (auto simp: init_hash_tbl_def Let_def b1_def[symmetric])
    from insert_rows_result[OF this, of i] b1 show ?thesis by simp
  qed
qed

lemma BuildHashTable_is_spilled:
  assumes "BuildHashTable e j b = ((st, built), b')"
  shows "is_spilled (part b' i) =
           (if st = OK \<and> built \<and> i = j \<and> j < length (all_partitions b) then False
            else is_spilled (part b i))"
proof -
  obtain st1 s1 w1 where p: "PinStream e (world b) j = ((st1, s1), w1)"
    by (cases "PinStream e (world b) j") auto
  show ?thesis
  proof (cases "st1 = OK \<and> s1")
    case False
    with assms p show ?thesis by (auto simp: BuildHashTable_def Let_def split: if_splits)
  next
    case True
    with assms p have "init_hash_tbl e j
        (b\<lparr>world := w1, ht_ctx := map_option (\<lambda>_. level (part b j)) (ht_ctx b)\<rparr>) = ((st, built), b')"
      by (auto simp: BuildHashTable_def Let_def)
    from init_hash_tbl_result[OF this, of i] show ?thesis by simp
  qed
qed

lemma finish_build_hash_tbl:
  "finish_build e j b x = ((OK, True), b') \<Longrightarrow> hash_tbl (part b' i) = hash_tbl (part b i)"
  by (cases x) (auto simp: finish_build_def not_built_def part_set_part split: if_splits)

lemma insert_rows_hash_tbl:
  assumes "insert_rows e j b = ((OK, True), b')"
  shows "hash_tbl (part b' i) = hash_tbl (part b i)"
proof -
  obtain st1 s1 w1 where p: "PrepareForRead e (world b) j False = ((st1, s1), w1)"
    by (cases "PrepareForRead e (world b) j False") auto
  show ?thesis
  proof (cases "st1 = OK")
    case False
    with assms p have "not_built e j st1 (b\<lparr>world := w1\<rparr>) = ((OK, True), b')"
      by (simp add: insert_rows_def Let_def)
    then show ?thesis by (simp add: not_built_def)
  next
    case True
    obtain x w2 where l: "InsertLoop e j (batches_of (batch_size e) (the (build_rows (part b j)))) w1
        = (x, w2)"
    by (cases "InsertLoop e j (batches_of (batch_size e) (the (build_rows (part b j)))) w1") auto
    with assms p True have f: "finish_build e j (b\<lparr>world := w2\<rparr>) x = ((OK, True), b')"
      by (simp add: insert_rows_def Let_def)
    from finish_build_hash_tbl[OF f, of i] show ?thesis by simp
  qed
qed

lemma init_hash_tbl_hash_tbl:
  assumes "init_hash_tbl e j b = ((OK, True), b')" "j < length (all_partitions b)"
  shows "hash_tbl (part b' j) = Some HashTable"
proof -
  define b1 where "b1 = set_part j ((part b j)\<lparr>hash_tbl := Some HashTable\<rparr>) b"
  have b1: "hash_tbl (part b1 j) = Some HashTable"
    using assms(2) by (auto simp: b1_def part_set_part)
  obtain st1 s1 w1 where p: "HashTableInit e (world b1) j = ((st1, s1), w1)"
    by (cases "HashTableInit e (world b1) j") auto
  show ?thesis
  proof (cases "st1 \<noteq> OK \<or> \<not> s1")
    case True
    with assms p have "not_built e j st1 (b1\<lparr>world := w1\<rparr>) = ((OK, True), b')"
      by (auto simp: init_hash_tbl_def Let_def b1_def[symmetric])
    then show ?thesis by (simp add: not_built_def)
  next
    case False
    with assms p have "insert_rows e j (b1\<lparr>world := w1\<rparr>) = ((OK, True), b')"
      by (auto simp: init_hash_tbl_def Let_def b1_def[symmetric])
    from insert_rows_hash_tbl[OF this, of j] b1 show ?thesis by simp
  qed
qed

lemma BuildHashTable_built_hash_tbl:
  assumes "BuildHashTable e j b = ((OK, True), b')" "j < length (all_partitions b)"
  shows "hash_tbl (part b' j) = Some HashTable"
proof -
  obtain st1 s1 w1 where p: "PinStream e (world b) j = ((st1, s1), w1)"
    by (cases "PinStream e (world b) j") auto
  show ?thesis
  proof (cases "st1 = OK \<and> s1")
    case False
    with assms p show ?thesis by (auto simp: BuildHashTable_def Let_def split: if_splits)
  next
    case True
    with assms p have "init_hash_tbl e j
        (b\<lparr>world := w1, ht_ctx := map_option (\<lambda>_. level (part b j)) (ht_ctx b)\<rparr>) = ((OK, True), b')"
      by (auto simp: BuildHashTable_def Let_def)
    from init_hash_tbl_hash_tbl[OF this] assms(2) show ?thesis by simp
  qed
qed

text \<open>
  Claim C1 says that no operation on a spilled partition resets \<open>is_spilled\<close> before the
  partition is closed. \<^verbatim>\<open>BuildHashTable\<close> does: on a spilled partition whose stream
  can be pinned and whose hash table fits, it ends with \<^verbatim>\<open>is_spilled_ = false\<close>, and
  the partition is not closed.
\<close>

theorem is_spilled_reset_counterexample:
  "is_spilled (part spilled_one 0)
   \<and> fst (BuildHashTable env_ok 0 spilled_one) = (OK, True)
   \<and> \<not> IsClosed (part (snd (BuildHashTable env_ok 0 spilled_one)) 0)
   \<and> \<not> is_spilled (part (snd (BuildHashTable env_ok 0 spilled_one)) 0)"
  by code_simp

text \<open>
  Claim C1, amended. A spilled partition stays spilled under \<^verbatim>\<open>Spill\<close>, under
  \<^verbatim>\<open>AddRow\<close> on a stream, under \<^verbatim>\<open>Partition::Close\<close>, and under every call of
  \<^verbatim>\<open>BuildHashTable\<close> on another partition or that does not return OK with
  \<open>built\<close>; a call of \<^verbatim>\<open>BuildHashTable\<close> on it that returns OK with \<open>built\<close>
  leaves it not spilled, with a hash table.
\<close>

theorem is_spilled_kept:
  assumes "is_spilled (part b i)"
  shows "is_spilled (part (snd (Spill e j mode b)) i)
    \<and> is_spilled (part (snd (stream_AddRow e j row b)) i)
    \<and> is_spilled (part (Partition_Close e j batch b) i)
    \<and> (BuildHashTable e j b = ((st, built), b') \<longrightarrow>
         (if st = OK \<and> built \<and> i = j
          then \<not> is_spilled (part b' i) \<and> hash_tbl (part b' i) = Some HashTable
          else is_spilled (part b' i)))"
proof -
  have v: "i < length (all_partitions b)" using assms by (rule is_spilled_valid)
  have "BuildHashTable e j b = ((st, built), b') \<longrightarrow>
         (if st = OK \<and> built \<and> i = j
          then \<not> is_spilled (part b' i) \<and> hash_tbl (part b' i) = Some HashTable
          else is_spilled (part b' i))"
  proof
    assume a: "BuildHashTable e j b = ((st, built), b')"
    show "if st = OK \<and> built \<and> i = j
          then \<not> is_spilled (part b' i) \<and> hash_tbl (part b' i) = Some HashTable
          else is_spilled (part b' i)"
    proof (cases "st = OK \<and> built \<and> i = j")
      case True
      then have "BuildHashTable e i b = ((OK, True), b')" using a by simp
      from BuildHashTable_built_hash_tbl[OF this v] BuildHashTable_is_spilled[OF a, of i] True v
      show ?thesis by simp
    next
      case False
      then have "\<not> (st = OK \<and> built \<and> i = j \<and> j < length (all_partitions b))" by blast
      with BuildHashTable_is_spilled[OF a, of i] assms have "is_spilled (part b' i)"
        by (simp only: if_False simp_thms)
      with False show ?thesis by (simp only: if_False)
    qed
  qed
  moreover have "is_spilled (part (snd (Spill e j mode b)) i)"
    using assms by (rule Spill_is_spilled)
  moreover have "is_spilled (part (snd (stream_AddRow e j row b)) i)"
    using assms by (simp only: stream_AddRow_is_spilled)
  moreover have "is_spilled (part (Partition_Close e j batch b) i)"
    using assms by (simp only: Partition_Close_is_spilled)
  ultimately show ?thesis by blast
qed


theorem is_spilled_kept_witness:
  "is_spilled (part (snd (Spill env_ok 0 UNPIN_ALL spilled_one)) 0)
   \<and> \<not> is_spilled (part (snd (BuildHashTable env_ok 0 spilled_one)) 0)
   \<and> hash_tbl (part (snd (BuildHashTable env_ok 0 spilled_one)) 0) = Some HashTable
   \<and> is_spilled (part (snd (BuildHashTable env_no_pin 0 spilled_one)) 0)"
proof -
  have h: "is_spilled (part spilled_one 0)" by code_simp
  have "fst (BuildHashTable env_ok 0 spilled_one) = (OK, True)" by code_simp
  then have 1: "BuildHashTable env_ok 0 spilled_one
      = ((OK, True), snd (BuildHashTable env_ok 0 spilled_one))"
    by (cases "BuildHashTable env_ok 0 spilled_one") auto
  have "fst (BuildHashTable env_no_pin 0 spilled_one) = (OK, False)" by code_simp
  then have 2: "BuildHashTable env_no_pin 0 spilled_one
      = ((OK, False), snd (BuildHashTable env_no_pin 0 spilled_one))"
    by (cases "BuildHashTable env_no_pin 0 spilled_one") auto
  from is_spilled_kept[OF h, of env_ok 0 UNPIN_ALL 0 False OK True
      "snd (BuildHashTable env_ok 0 spilled_one)"] 1
  have a: "is_spilled (part (snd (Spill env_ok 0 UNPIN_ALL spilled_one)) 0)"
    "\<not> is_spilled (part (snd (BuildHashTable env_ok 0 spilled_one)) 0)"
    "hash_tbl (part (snd (BuildHashTable env_ok 0 spilled_one)) 0) = Some HashTable"
    by simp_all
  from is_spilled_kept[OF h, of env_no_pin 0 UNPIN_ALL 0 False OK False
      "snd (BuildHashTable env_no_pin 0 spilled_one)"] 2
  have b: "is_spilled (part (snd (BuildHashTable env_no_pin 0 spilled_one)) 0)"
    by simp
  from a b show ?thesis by blast
qed

subsection \<open>Publishing the runtime filters\<close>

subsection \<open>The rows of a partition\<close>

lemma Spill_build_rows [simp]:
  "build_rows (part (snd (Spill e j mode b)) i) = build_rows (part b i)"
  by (auto simp: Spill_def Let_def part_set_part split: prod.splits)

lemma not_built_build_rows [simp]:
  "build_rows (part (snd (not_built e j st b)) i) = build_rows (part b i)"
  by (auto simp: not_built_def part_set_part)

lemma finish_build_build_rows [simp]:
  "build_rows (part (snd (finish_build e j b x)) i) = build_rows (part b i)"
  by (cases x) (auto simp: finish_build_def part_set_part)

lemma insert_rows_build_rows [simp]:
  "build_rows (part (snd (insert_rows e j b)) i) = build_rows (part b i)"
  using not_built_build_rows[of e j _ "b\<lparr>world := w\<rparr>" i for w]
    finish_build_build_rows[of e j "b\<lparr>world := w\<rparr>" _ i for w]
  by (auto simp: insert_rows_def Let_def split: prod.splits)

lemma init_hash_tbl_build_rows [simp]:
  "build_rows (part (snd (init_hash_tbl e j b)) i) = build_rows (part b i)"
proof -
  define b1 where "b1 = set_part j ((part b j)\<lparr>hash_tbl := Some HashTable\<rparr>) b"
  have 1: "build_rows (part b1 i) = build_rows (part b i)" by (simp add: b1_def part_set_part)
  have "build_rows (part (snd (init_hash_tbl e j b)) i) = build_rows (part b1 i)"
    using not_built_build_rows[of e j _ "b1\<lparr>world := w\<rparr>" i for w]
      insert_rows_build_rows[of e j "b1\<lparr>world := w\<rparr>" i for w]
    by (auto simp: init_hash_tbl_def Let_def b1_def[symmetric] split: prod.splits)
  with 1 show ?thesis by simp
qed

lemma BuildHashTable_build_rows [simp]:
  "build_rows (part (snd (BuildHashTable e j b)) i) = build_rows (part b i)"
  using init_hash_tbl_build_rows[of e j "b\<lparr>world := w, ht_ctx := map_option (\<lambda>_. l) (ht_ctx b)\<rparr>" i for w l]
  by (auto simp: BuildHashTable_def Let_def split: prod.splits)

lemma part_SaveReservation_sub [simp]:
  "part (SaveReservation_sub e n b) i = part b i"
  "part (RestoreReservation_sub e n b) i = part b i"
  by (simp_all add: SaveReservation_sub_def RestoreReservation_sub_def)

lemma Reservation_sub_fields [simp]:
  "hash_partitions (SaveReservation_sub e n b) = hash_partitions b"
  "hash_partitions (RestoreReservation_sub e n b) = hash_partitions b"
  "non_empty_build (SaveReservation_sub e n b) = non_empty_build b"
  "non_empty_build (RestoreReservation_sub e n b) = non_empty_build b"
  "all_partitions (SaveReservation_sub e n b) = all_partitions b"
  "all_partitions (RestoreReservation_sub e n b) = all_partitions b"
  "spillable_buffer_size (SaveReservation_sub e n b) = spillable_buffer_size b"
  "spillable_buffer_size (RestoreReservation_sub e n b) = spillable_buffer_size b"
  "state (SaveReservation_sub e n b) = state b"
  "state (RestoreReservation_sub e n b) = state b"
  "filter_updates (SaveReservation_sub e n b) = filter_updates b"
  "filter_updates (RestoreReservation_sub e n b) = filter_updates b"
  by (simp_all add: SaveReservation_sub_def RestoreReservation_sub_def)

lemma TransferProbeStreamReservation_fields [simp]:
  "part (TransferProbeStreamReservation e b) i = part b i"
  "hash_partitions (TransferProbeStreamReservation e b) = hash_partitions b"
  "non_empty_build (TransferProbeStreamReservation e b) = non_empty_build b"
  "all_partitions (TransferProbeStreamReservation e b) = all_partitions b"
  "ht_ctx (TransferProbeStreamReservation e b) = ht_ctx b"
  "state (TransferProbeStreamReservation e b) = state b"
  "filter_updates (TransferProbeStreamReservation e b) = filter_updates b"
  by (simp_all add: TransferProbeStreamReservation_def Let_def RestoreReservation_sub_frame)


subsection \<open>Repartitioning\<close>









lemma LargestPartitionRows_Transfer [simp]:
  "LargestPartitionRows (TransferProbeStreamReservation e b) = LargestPartitionRows b"
proof -
  have "largest_rows_step (TransferProbeStreamReservation e b) = largest_rows_step b"
    by (intro ext) (simp add: largest_rows_step_def)
  then show ?thesis by (simp add: LargestPartitionRows_def)
qed




subsection \<open>Progress of repartitioning\<close>



subsection \<open>The depth of repartitioning\<close>

text \<open>
  Claim C6. When the probe is not empty, the hash table of the spilled partition does
  not fit (\<^verbatim>\<open>BuildHashTable\<close> returns OK without \<open>built\<close>) and the level of the
  partition plus one is at least \<open>MAX_PARTITION_DEPTH\<close>, \<^verbatim>\<open>BeginSpilledProbe\<close> returns
  PARTITIONED_HASH_JOIN_MAX_PARTITION_DEPTH; the fanout is the one there was and no
  partition has been created.
\<close>

theorem max_partition_depth:
  assumes "\<not> empty_probe"
    and "BuildHashTable e p (SaveReservation_sub e (spillable_buffer_size b) b) = ((OK, False), b2)"
    and "level (part b p) + 1 \<ge> MAX_PARTITION_DEPTH e"
  shows "BeginSpilledProbe e empty_probe p b
           = ((ErrCode PARTITIONED_HASH_JOIN_MAX_PARTITION_DEPTH, no_out),
              UpdateState REPARTITIONING_BUILD b2)
         \<and> hash_partitions (UpdateState REPARTITIONING_BUILD b2) = hash_partitions b
         \<and> length (all_partitions (UpdateState REPARTITIONING_BUILD b2)) = length (all_partitions b)"
proof -
  note f = BuildHashTable_eq(1)[OF assms(2), unfolded frame_def]
  from f have lv: "level (part b2 p) = level (part b p)" by simp
  from f have hp: "hash_partitions b2 = hash_partitions b"
    "length (all_partitions b2) = length (all_partitions b)" by simp_all
  from assms lv have "BeginSpilledProbe e empty_probe p b
           = ((ErrCode PARTITIONED_HASH_JOIN_MAX_PARTITION_DEPTH, no_out),
              UpdateState REPARTITIONING_BUILD b2)"
    by (simp add: BeginSpilledProbe_def Let_def)
  with hp show ?thesis by simp
qed

theorem max_partition_depth_witness:
  "fst (BeginSpilledProbe env_repartition False 0 deepest)
     = (ErrCode PARTITIONED_HASH_JOIN_MAX_PARTITION_DEPTH, no_out)
   \<and> hash_partitions (snd (BeginSpilledProbe env_repartition False 0 deepest)) = []
   \<and> length (all_partitions (snd (BeginSpilledProbe env_repartition False 0 deepest))) = 1"
proof -
  define B where "B = BuildHashTable env_repartition 0
      (SaveReservation_sub env_repartition (spillable_buffer_size deepest) deepest)"
  have "fst B = (OK, False)" unfolding B_def by code_simp
  then have 1: "BuildHashTable env_repartition 0
      (SaveReservation_sub env_repartition (spillable_buffer_size deepest) deepest)
      = ((OK, False), snd B)"
    unfolding B_def[symmetric] by (cases B) auto
  have 2: "level (part deepest 0) + 1 \<ge> MAX_PARTITION_DEPTH env_repartition" by code_simp
  have 3: "hash_partitions deepest = []" "length (all_partitions deepest) = 1" by code_simp+
  have 0: "\<not> False" by simp
  from max_partition_depth[OF 0 1 2] 3 show ?thesis by simp
qed

subsection \<open>Appending when the stream is full\<close>

lemma SpillPartition_build_rows [simp]:
  "build_rows (part (snd (SpillPartition e mode b)) j) = build_rows (part b j)"
proof (cases "best_candidate e b")
  case None
  then show ?thesis by (simp add: SpillPartition_def)
next
  case (Some i)
  then have "snd (SpillPartition e mode b) = snd (Spill e i mode b)"
    by (simp add: SpillPartition_def split: prod.splits)
  then show ?thesis by simp
qed

lemma stream_AddRow_rows:
  assumes "stream_AddRow e i row b = ((True, st), b')"
  shows "build_rows (part b' i) = map_option (\<lambda>s. s @ [row]) (build_rows (part b i))"
    "map CanSpill (all_partitions b') = map CanSpill (all_partitions b)"
proof -
  obtain w where b': "b' = set_part i
      ((part b i)\<lparr>build_rows := map_option (\<lambda>s. s @ [row]) (build_rows (part b i))\<rparr>)
      (b\<lparr>world := w\<rparr>)"
    using assms by (auto simp: stream_AddRow_def Let_def split: prod.splits if_splits)
  show "build_rows (part b' i) = map_option (\<lambda>s. s @ [row]) (build_rows (part b i))"
  proof (cases "i < length (all_partitions b)")
    case True
    then show ?thesis by (simp add: b' part_set_part)
  next
    case False
    then show ?thesis by (simp add: b' part_set_part) (simp add: part_def)
  qed
  show "map CanSpill (all_partitions b') = map CanSpill (all_partitions b)"
  proof (cases "i < length (all_partitions b)")
    case True
    then have "CanSpill ((part b i)\<lparr>build_rows := map_option (\<lambda>s. s @ [row]) (build_rows (part b i))\<rparr>)
        = CanSpill (all_partitions b ! i)"
      by (simp add: CanSpill_def IsClosed_def part_def)
    then show ?thesis
      by (simp add: b' set_part_def map_update list_update_same_conv True)
  next
    case False
    then have "(all_partitions b)[i := p] = all_partitions b" for p
      by (intro list_update_beyond) simp
    then show ?thesis by (simp add: b' set_part_def)
  qed
qed

lemma Spill_never_fails: "only_memory_failures e \<Longrightarrow> fst (Spill e i mode b) = OK"
proof -
  assume a: "only_memory_failures e"
  then have s: "\<And>w. fst (StartSpilling e w) = OK" and u: "\<And>w i m. fst (UnpinStream e w i m) = OK"
    by (simp_all add: only_memory_failures_def)
  obtain w1 where 1: "StartSpilling e (world b) = (OK, w1)"
    using s[of "world b"] by (cases "StartSpilling e (world b)") auto
  show ?thesis
    using 1 u by (auto simp: Spill_def Let_def split: prod.splits) (metis fst_conv)+
qed

lemma SpillPartition_failed:
  assumes "SpillPartition e mode b = ((st, sp), b')" "st \<noteq> OK" "only_memory_failures e"
  shows "st = ErrMsg NO_PARTITION_TO_SPILL \<and> best_candidate e b' = None"
proof (cases "best_candidate e b")
  case None
  with assms(1) show ?thesis by (auto simp: SpillPartition_def)
next
  case (Some i)
  with assms(1,2) Spill_never_fails[OF assms(3), of i mode b] show ?thesis
    by (auto simp: SpillPartition_def split: prod.splits if_splits)
qed

subsection \<open>The victim of SpillPartition\<close>

lemma best_candidate_fanout:
  assumes "\<not> (null_aware_partition b \<noteq> None \<and> CanSpill (part b (the (null_aware_partition b))))"
  shows "(best_candidate e b = None
          \<and> (\<forall>j\<in>set (hash_partitions b). CanSpill (part b j) \<longrightarrow> freed_mem e b j \<le> 0))
     \<or> (\<exists>k < length (hash_partitions b).
          best_candidate e b = Some (hash_partitions b ! k)
          \<and> CanSpill (part b (hash_partitions b ! k))
          \<and> 0 < freed_mem e b (hash_partitions b ! k)
          \<and> (\<forall>j\<in>set (hash_partitions b). CanSpill (part b j)
                \<longrightarrow> freed_mem e b j \<le> freed_mem e b (hash_partitions b ! k))
          \<and> (\<forall>k' < k. CanSpill (part b (hash_partitions b ! k'))
                \<longrightarrow> freed_mem e b (hash_partitions b ! k') < freed_mem e b (hash_partitions b ! k)))"
proof -
  obtain m c where f: "foldl (largest_step e b) (0, None) (hash_partitions b) = (m, c)"
    by (cases "foldl (largest_step e b) (0, None) (hash_partitions b)") auto
  have bc: "best_candidate e b = c" using assms f by (auto simp: best_candidate_def)
  from largest_fold[OF f] show ?thesis
  proof
    assume "m = 0 \<and> c = None
      \<and> (\<forall>j\<in>set (hash_partitions b). CanSpill (part b j) \<longrightarrow> freed_mem e b j \<le> 0)"
    then show ?thesis by (simp add: bc)
  next
    assume "\<exists>k<length (hash_partitions b). c = Some (hash_partitions b ! k) \<and>
        CanSpill (part b (hash_partitions b ! k)) \<and> freed_mem e b (hash_partitions b ! k) = m \<and> 0 < m \<and>
        (\<forall>j\<in>set (hash_partitions b). CanSpill (part b j) \<longrightarrow> freed_mem e b j \<le> m) \<and>
        (\<forall>k'<k. CanSpill (part b (hash_partitions b ! k')) \<longrightarrow> freed_mem e b (hash_partitions b ! k') < m)"
    then obtain k where "k<length (hash_partitions b)" "c = Some (hash_partitions b ! k)"
        "CanSpill (part b (hash_partitions b ! k))" "freed_mem e b (hash_partitions b ! k) = m" "0 < m"
        "\<forall>j\<in>set (hash_partitions b). CanSpill (part b j) \<longrightarrow> freed_mem e b j \<le> m"
        "\<forall>k'<k. CanSpill (part b (hash_partitions b ! k')) \<longrightarrow> freed_mem e b (hash_partitions b ! k') < m"
      by blast
    then show ?thesis unfolding bc by blast
  qed
qed

lemma SpillPartition_of_candidate:
  "best_candidate e b = Some i \<Longrightarrow>
   SpillPartition e mode b
     = (case Spill e i mode b of (st, b1) \<Rightarrow> ((st, if st = OK then Some i else None), b1))"
  by (auto simp: SpillPartition_def split: prod.splits)

text \<open>
  Claim C4 says that, when the null-aware partition is not the victim, the victim is
  the partition of the fanout that can spill and frees the most. The loop of
  \<^verbatim>\<open>SpillPartition\<close> starts from \<^verbatim>\<open>max_freed_mem = 0\<close> and takes a candidate only when
  \<^verbatim>\<open>mem > max_freed_mem\<close>: here the three partitions of the fanout can spill, none has
  a byte pinned or a hash table, and \<^verbatim>\<open>SpillPartition\<close> chooses none of them, spills
  nothing and returns its internal error.
\<close>

theorem no_victim_counterexample:
  "CanSpill (part three_partitions 0) \<and> CanSpill (part three_partitions 1)
   \<and> CanSpill (part three_partitions 2) \<and> hash_partitions three_partitions = [0, 1, 2]
   \<and> null_aware_partition three_partitions = None
   \<and> SpillPartition env_ok UNPIN_ALL three_partitions
       = ((ErrMsg NO_PARTITION_TO_SPILL, None), three_partitions)"
  by code_simp

text \<open>
  Claim C4, amended. \<open>freed_mem e b i\<close> is \<^verbatim>\<open>BytesPinned\<close> of the stream of partition
  \<open>i\<close> plus, when the partition has a hash table, the table's \<^verbatim>\<open>ByteSize\<close>. When the
  null-aware partition exists and can spill, \<^verbatim>\<open>SpillPartition\<close> spills it. Otherwise,
  either no partition of the fanout that can spill would free more than 0 bytes, and
  then \<^verbatim>\<open>SpillPartition\<close> spills nothing and returns its internal error; or it spills
  the partition of the fanout that can spill, frees more than 0 bytes, frees at least
  as much as every partition of the fanout that can spill, and stands in the fanout
  before every other one that frees as much. The victim is spilled with the mode
  given; the call returns the status of that spill and reports the victim when the
  status is OK.
\<close>

theorem SpillPartition_victim:
  "(null_aware_partition b = Some n \<and> CanSpill (part b n) \<longrightarrow>
      SpillPartition e mode b
        = (case Spill e n mode b of (st, b1) \<Rightarrow> ((st, if st = OK then Some n else None), b1)))
   \<and> (\<not> (null_aware_partition b \<noteq> None \<and> CanSpill (part b (the (null_aware_partition b)))) \<longrightarrow>
        ((\<forall>j\<in>set (hash_partitions b). CanSpill (part b j) \<longrightarrow> freed_mem e b j \<le> 0)
           \<and> SpillPartition e mode b = ((ErrMsg NO_PARTITION_TO_SPILL, None), b))
        \<or> (\<exists>k < length (hash_partitions b).
              CanSpill (part b (hash_partitions b ! k))
              \<and> 0 < freed_mem e b (hash_partitions b ! k)
              \<and> (\<forall>j\<in>set (hash_partitions b). CanSpill (part b j)
                    \<longrightarrow> freed_mem e b j \<le> freed_mem e b (hash_partitions b ! k))
              \<and> (\<forall>k' < k. CanSpill (part b (hash_partitions b ! k'))
                    \<longrightarrow> freed_mem e b (hash_partitions b ! k')
                         < freed_mem e b (hash_partitions b ! k))
              \<and> SpillPartition e mode b
                  = (case Spill e (hash_partitions b ! k) mode b of
                       (st, b1) \<Rightarrow>
                         ((st, if st = OK then Some (hash_partitions b ! k) else None), b1))))
   \<and> freed_mem e b i
       = BytesPinned e (world b) i
         + (if hash_tbl (part b i) \<noteq> None then ByteSize e (world b) i else 0)"
proof (intro conjI impI)
  assume "null_aware_partition b = Some n \<and> CanSpill (part b n)"
  then have "best_candidate e b = Some n" by (simp add: best_candidate_def)
  then show "SpillPartition e mode b
        = (case Spill e n mode b of (st, b1) \<Rightarrow> ((st, if st = OK then Some n else None), b1))"
    by (rule SpillPartition_of_candidate)
next
  assume na: "\<not> (null_aware_partition b \<noteq> None \<and> CanSpill (part b (the (null_aware_partition b))))"
  from best_candidate_fanout[OF na, of e]
  show "((\<forall>j\<in>set (hash_partitions b). CanSpill (part b j) \<longrightarrow> freed_mem e b j \<le> 0)
           \<and> SpillPartition e mode b = ((ErrMsg NO_PARTITION_TO_SPILL, None), b))
        \<or> (\<exists>k < length (hash_partitions b).
              CanSpill (part b (hash_partitions b ! k))
              \<and> 0 < freed_mem e b (hash_partitions b ! k)
              \<and> (\<forall>j\<in>set (hash_partitions b). CanSpill (part b j)
                    \<longrightarrow> freed_mem e b j \<le> freed_mem e b (hash_partitions b ! k))
              \<and> (\<forall>k' < k. CanSpill (part b (hash_partitions b ! k'))
                    \<longrightarrow> freed_mem e b (hash_partitions b ! k')
                         < freed_mem e b (hash_partitions b ! k))
              \<and> SpillPartition e mode b
                  = (case Spill e (hash_partitions b ! k) mode b of
                       (st, b1) \<Rightarrow>
                         ((st, if st = OK then Some (hash_partitions b ! k) else None), b1)))"
  proof
    assume "best_candidate e b = None
          \<and> (\<forall>j\<in>set (hash_partitions b). CanSpill (part b j) \<longrightarrow> freed_mem e b j \<le> 0)"
    then show ?thesis by (simp add: SpillPartition_def)
  next
    assume "\<exists>k < length (hash_partitions b).
          best_candidate e b = Some (hash_partitions b ! k)
          \<and> CanSpill (part b (hash_partitions b ! k))
          \<and> 0 < freed_mem e b (hash_partitions b ! k)
          \<and> (\<forall>j\<in>set (hash_partitions b). CanSpill (part b j)
                \<longrightarrow> freed_mem e b j \<le> freed_mem e b (hash_partitions b ! k))
          \<and> (\<forall>k' < k. CanSpill (part b (hash_partitions b ! k'))
                \<longrightarrow> freed_mem e b (hash_partitions b ! k') < freed_mem e b (hash_partitions b ! k))"
    then obtain k where k: "k < length (hash_partitions b)"
        "best_candidate e b = Some (hash_partitions b ! k)"
        "CanSpill (part b (hash_partitions b ! k))"
        "0 < freed_mem e b (hash_partitions b ! k)"
        "\<forall>j\<in>set (hash_partitions b). CanSpill (part b j)
                \<longrightarrow> freed_mem e b j \<le> freed_mem e b (hash_partitions b ! k)"
        "\<forall>k' < k. CanSpill (part b (hash_partitions b ! k'))
                \<longrightarrow> freed_mem e b (hash_partitions b ! k') < freed_mem e b (hash_partitions b ! k)"
      by blast
    note s = SpillPartition_of_candidate[OF k(2), of mode]
    from k(1,3,4,5,6) s show ?thesis by blast
  qed
next
  show "freed_mem e b i
       = BytesPinned e (world b) i
         + (if hash_tbl (part b i) \<noteq> None then ByteSize e (world b) i else 0)"
    by (simp add: freed_mem_def)
qed

theorem SpillPartition_victim_witness:
  "SpillPartition env_mem UNPIN_ALL with_null_aware
     = ((OK, Some 2), snd (Spill env_mem 2 UNPIN_ALL with_null_aware))
   \<and> SpillPartition env_mem UNPIN_ALL three_partitions
     = ((OK, Some 1), snd (Spill env_mem 1 UNPIN_ALL three_partitions))
   \<and> SpillPartition env_tables UNPIN_ALL with_hash_table
     = ((OK, Some 2), snd (Spill env_tables 2 UNPIN_ALL with_hash_table))
   \<and> freed_mem env_tables with_hash_table 2 = 19
   \<and> SpillPartition env_ok UNPIN_ALL three_partitions
     = ((ErrMsg NO_PARTITION_TO_SPILL, None), three_partitions)"
proof -
  have sp: "\<And>(e :: (unit, nat) env) i b. fst (Spill e i UNPIN_ALL b) = OK \<Longrightarrow>
      (case Spill e i UNPIN_ALL b of (st, b1) \<Rightarrow> ((st, if st = OK then Some i else None), b1))
        = ((OK, Some i), snd (Spill e i UNPIN_ALL b))"
    by (auto split: prod.splits)
  have three: "\<And>k :: nat. k < 3 \<Longrightarrow> k = 0 \<or> k = 1 \<or> k = 2" by auto
  txt \<open>The null-aware partition.\<close>
  have na: "null_aware_partition with_null_aware = Some 2 \<and> CanSpill (part with_null_aware 2)"
    by code_simp
  have s1: "fst (Spill env_mem 2 UNPIN_ALL with_null_aware) = OK" by code_simp
  from SpillPartition_victim[of with_null_aware 2 env_mem UNPIN_ALL] na sp[OF s1]
  have 1: "SpillPartition env_mem UNPIN_ALL with_null_aware
     = ((OK, Some 2), snd (Spill env_mem 2 UNPIN_ALL with_null_aware))" by simp
  txt \<open>The first of the two partitions with 9 bytes pinned.\<close>
  have no: "\<not> (null_aware_partition three_partitions \<noteq> None
              \<and> CanSpill (part three_partitions (the (null_aware_partition three_partitions))))"
    by (simp add: three_partitions_def builder_of_def)
  have hp: "hash_partitions three_partitions = [0, 1, 2]"
    by (simp add: three_partitions_def builder_of_def)
  have cs: "CanSpill (part three_partitions 0)" "CanSpill (part three_partitions 1)"
    "CanSpill (part three_partitions 2)" by code_simp+
  have fm: "freed_mem env_mem three_partitions 0 = 5" "freed_mem env_mem three_partitions 1 = 9"
    "freed_mem env_mem three_partitions 2 = 9" by code_simp+
  have s2: "fst (Spill env_mem 1 UNPIN_ALL three_partitions) = OK" by code_simp
  from SpillPartition_victim[of three_partitions _ env_mem UNPIN_ALL,
      THEN conjunct2, THEN conjunct1, THEN mp, OF no]
  have 2: "SpillPartition env_mem UNPIN_ALL three_partitions
     = ((OK, Some 1), snd (Spill env_mem 1 UNPIN_ALL three_partitions))"
  proof (elim conjE disjE exE)
    assume "\<forall>j\<in>set (hash_partitions three_partitions).
        CanSpill (part three_partitions j) \<longrightarrow> freed_mem env_mem three_partitions j \<le> 0"
    with cs(2) fm(2) show ?thesis by (simp add: hp)
  next
    fix k
    assume k: "k < length (hash_partitions three_partitions)"
      and mx: "\<forall>j\<in>set (hash_partitions three_partitions). CanSpill (part three_partitions j)
            \<longrightarrow> freed_mem env_mem three_partitions j
                \<le> freed_mem env_mem three_partitions (hash_partitions three_partitions ! k)"
      and fs: "\<forall>k' < k. CanSpill (part three_partitions (hash_partitions three_partitions ! k'))
            \<longrightarrow> freed_mem env_mem three_partitions (hash_partitions three_partitions ! k')
                < freed_mem env_mem three_partitions (hash_partitions three_partitions ! k)"
      and eq: "SpillPartition env_mem UNPIN_ALL three_partitions
          = (case Spill env_mem (hash_partitions three_partitions ! k) UNPIN_ALL three_partitions of
               (st, b1) \<Rightarrow>
                 ((st, if st = OK then Some (hash_partitions three_partitions ! k) else None), b1))"
    from k have "k = 0 \<or> k = 1 \<or> k = 2" by (intro three) (simp add: hp)
    then show ?thesis
    proof (elim disjE)
      assume "k = 0"
      with mx cs(2) fm show ?thesis by (simp add: hp)
    next
      assume "k = 1"
      then have hk: "hash_partitions three_partitions ! k = 1" by (simp add: hp)
      show ?thesis unfolding eq[unfolded hk] by (rule sp[OF s2])
    next
      assume "k = 2"
      with fs[rule_format, of 1] cs(2) fm show ?thesis by (simp add: hp)
    qed
  qed
  txt \<open>The partition whose hash table makes it the largest.\<close>
  have no3: "\<not> (null_aware_partition with_hash_table \<noteq> None
              \<and> CanSpill (part with_hash_table (the (null_aware_partition with_hash_table))))"
    by (simp add: with_hash_table_def builder_of_def)
  have hp3: "hash_partitions with_hash_table = [0, 1, 2]"
    by (simp add: with_hash_table_def builder_of_def)
  have cs3: "CanSpill (part with_hash_table 2)" by code_simp
  have fm3: "freed_mem env_tables with_hash_table 0 = 5" "freed_mem env_tables with_hash_table 1 = 9"
    "BytesPinned env_tables (world with_hash_table) 2 = 9"
    "ByteSize env_tables (world with_hash_table) 2 = 10"
    "hash_tbl (part with_hash_table 2) \<noteq> None" by code_simp+
  have s3: "fst (Spill env_tables 2 UNPIN_ALL with_hash_table) = OK" by code_simp
  note th3 = SpillPartition_victim[of with_hash_table _ env_tables UNPIN_ALL 2]
  from th3 fm3 have 4: "freed_mem env_tables with_hash_table 2 = 19" by simp
  from th3[THEN conjunct2, THEN conjunct1, THEN mp, OF no3]
  have 3: "SpillPartition env_tables UNPIN_ALL with_hash_table
     = ((OK, Some 2), snd (Spill env_tables 2 UNPIN_ALL with_hash_table))"
  proof (elim conjE disjE exE)
    assume "\<forall>j\<in>set (hash_partitions with_hash_table).
        CanSpill (part with_hash_table j) \<longrightarrow> freed_mem env_tables with_hash_table j \<le> 0"
    with cs3 4 show ?thesis by (simp add: hp3)
  next
    fix k
    assume k: "k < length (hash_partitions with_hash_table)"
      and mx: "\<forall>j\<in>set (hash_partitions with_hash_table). CanSpill (part with_hash_table j)
            \<longrightarrow> freed_mem env_tables with_hash_table j
                \<le> freed_mem env_tables with_hash_table (hash_partitions with_hash_table ! k)"
      and eq: "SpillPartition env_tables UNPIN_ALL with_hash_table
          = (case Spill env_tables (hash_partitions with_hash_table ! k) UNPIN_ALL with_hash_table of
               (st, b1) \<Rightarrow>
                 ((st, if st = OK then Some (hash_partitions with_hash_table ! k) else None), b1))"
    from k have "k = 0 \<or> k = 1 \<or> k = 2" by (intro three) (simp add: hp3)
    then show ?thesis
    proof (elim disjE)
      assume "k = 0"
      with mx cs3 fm3 4 show ?thesis by (simp add: hp3)
    next
      assume "k = 1"
      with mx cs3 fm3 4 show ?thesis by (simp add: hp3)
    next
      assume "k = 2"
      then have hk: "hash_partitions with_hash_table ! k = 2" by (simp add: hp3)
      show ?thesis unfolding eq[unfolded hk] by (rule sp[OF s3])
    qed
  qed
  txt \<open>No byte pinned.\<close>
  have fm0: "freed_mem env_ok three_partitions 0 = 0" "freed_mem env_ok three_partitions 1 = 0"
    "freed_mem env_ok three_partitions 2 = 0" by code_simp+
  from SpillPartition_victim[of three_partitions _ env_ok UNPIN_ALL,
      THEN conjunct2, THEN conjunct1, THEN mp, OF no]
  have 5: "SpillPartition env_ok UNPIN_ALL three_partitions
     = ((ErrMsg NO_PARTITION_TO_SPILL, None), three_partitions)"
  proof (elim conjE disjE exE)
    assume "SpillPartition env_ok UNPIN_ALL three_partitions
        = ((ErrMsg NO_PARTITION_TO_SPILL, None), three_partitions)"
    then show ?thesis .
  next
    fix k
    assume k: "k < length (hash_partitions three_partitions)"
      and pos: "0 < freed_mem env_ok three_partitions (hash_partitions three_partitions ! k)"
    from k have "k = 0 \<or> k = 1 \<or> k = 2" by (intro three) (simp add: hp)
    with pos fm0 show ?thesis by (auto simp: hp)
  qed
  from 1 2 3 4 5 show ?thesis by blast
qed

subsection \<open>Publishing the runtime filters\<close>

lemma publish_step_filter_ctxs:
  "publish_step e n (c, b\<lparr>filter_ctxs := cs\<rparr>) ctx
     = (fst (publish_step e n (c, b) ctx), (snd (publish_step e n (c, b) ctx))\<lparr>filter_ctxs := cs\<rparr>)"
  by (simp add: publish_step_def Let_def call_def)

lemma publish_fold_filter_ctxs:
  "foldl (publish_step e n) (c, b\<lparr>filter_ctxs := cs\<rparr>) xs
     = (fst (foldl (publish_step e n) (c, b) xs),
        (snd (foldl (publish_step e n) (c, b) xs))\<lparr>filter_ctxs := cs\<rparr>)"
proof (induction xs arbitrary: c b)
  case Nil
  then show ?case by simp
next
  case (Cons x xs)
  obtain c1 b1 where s: "publish_step e n (c, b) x = (c1, b1)"
    by (cases "publish_step e n (c, b) x") auto
  show ?case by (simp add: publish_step_filter_ctxs s Cons.IH)
qed

lemma world_published_prefix:
  "world (snd (PublishRuntimeFilters e n (b\<lparr>filter_ctxs := cs\<rparr>)))
     = world (snd (foldl (publish_step e n) (0, b) cs))"
  by (simp add: PublishRuntimeFilters_def publish_fold_filter_ctxs)

lemma publish_step_eq:
  "filter_updates (snd (publish_step e n acc ctx))
     = filter_updates (snd acc) @
         [\<lparr>upd_filter_id = filter_id ctx,
           upd_bloom_filter = bloom_filter_arg e (world (snd acc)) n ctx,
           upd_min_max_filter = local_min_max_filter ctx\<rparr>]"
  "fst (publish_step e n acc ctx)
     = fst acc + (if filter_enabled e (world (snd acc)) n ctx then 1 else 0)"
  by (simp_all add: publish_step_def Let_def)

lemma publish_fold_eq:
  "filter_updates (snd (foldl (publish_step e n) (c, b) cs))
     = filter_updates b @
         map (\<lambda>k. \<lparr>upd_filter_id = filter_id (cs ! k),
                    upd_bloom_filter =
                      bloom_filter_arg e
                        (world (snd (foldl (publish_step e n) (c, b) (take k cs)))) n (cs ! k),
                    upd_min_max_filter = local_min_max_filter (cs ! k)\<rparr>)
           [0..<length cs]
     \<and> fst (foldl (publish_step e n) (c, b) cs)
       = c + length (filter (\<lambda>k. filter_enabled e
                 (world (snd (foldl (publish_step e n) (c, b) (take k cs)))) n (cs ! k))
               [0..<length cs])"
proof (induction cs rule: rev_induct)
  case Nil
  then show ?case by simp
next
  case (snoc x cs)
  define W where "W = (\<lambda>xs k. world (snd (foldl (publish_step e n) (c, b) (take k xs))))"
  define U where "U = (\<lambda>xs k. \<lparr>upd_filter_id = filter_id (xs ! k),
                    upd_bloom_filter = bloom_filter_arg e (W xs k) n (xs ! k),
                    upd_min_max_filter = local_min_max_filter (xs ! k)\<rparr>)"
  define E where "E = (\<lambda>xs k. filter_enabled e (W xs k) n (xs ! k))"
  have w: "W (cs @ [x]) k = W cs k" if "k \<le> length cs" for k
    using that by (simp add: W_def)
  have u: "U (cs @ [x]) k = U cs k" if "k < length cs" for k
    using that w[of k] by (simp add: U_def nth_append)
  have en: "E (cs @ [x]) k = E cs k" if "k < length cs" for k
    using that w[of k] by (simp add: E_def nth_append)
  have m: "map (U (cs @ [x])) [0..<length cs] = map (U cs) [0..<length cs]"
    by (rule map_cong) (simp_all add: u)
  have f: "filter (E (cs @ [x])) [0..<length cs] = filter (E cs) [0..<length cs]"
    by (rule filter_cong) (simp_all add: en)
  have last: "U (cs @ [x]) (length cs)
      = \<lparr>upd_filter_id = filter_id x,
         upd_bloom_filter = bloom_filter_arg e (world (snd (foldl (publish_step e n) (c, b) cs))) n x,
         upd_min_max_filter = local_min_max_filter x\<rparr>"
    "E (cs @ [x]) (length cs)
      = filter_enabled e (world (snd (foldl (publish_step e n) (c, b) cs))) n x"
    by (simp_all add: U_def E_def W_def)
  from snoc have ih: "filter_updates (snd (foldl (publish_step e n) (c, b) cs))
        = filter_updates b @ map (U cs) [0..<length cs]"
    "fst (foldl (publish_step e n) (c, b) cs) = c + length (filter (E cs) [0..<length cs])"
    by (simp_all add: U_def E_def W_def)
  have 1: "filter_updates (snd (foldl (publish_step e n) (c, b) (cs @ [x])))
      = filter_updates b @ map (U (cs @ [x])) [0..<length (cs @ [x])]"
    by (simp add: publish_step_eq ih m last)
  have 2: "fst (foldl (publish_step e n) (c, b) (cs @ [x]))
      = c + length (filter (E (cs @ [x])) [0..<length (cs @ [x])])"
    by (simp add: publish_step_eq ih f last)
  from 1 2 show ?case unfolding U_def E_def W_def by blast
qed

text \<open>
  Claim C5 says that a min-max filter is published unless it is always true.
  \<^verbatim>\<open>PublishRuntimeFilters\<close> passes the min-max filter of every context to
  \<^verbatim>\<open>UpdateFilterFromLocal\<close>: here \<^verbatim>\<open>FlushFinal\<close> at level 0 passes on one that is
  always true, and only leaves it out of the count of the enabled filters.
\<close>

theorem always_true_min_max_counterexample:
  "AlwaysTrue env_always_true () 7
   \<and> the (ht_ctx two_filters) = 0
   \<and> fst (FlushFinal env_always_true two_filters) = OK
   \<and> filter_updates (snd (FlushFinal env_always_true two_filters))
       = [\<lparr>upd_filter_id = 1, upd_bloom_filter = NullBloomFilter, upd_min_max_filter = Some 7\<rparr>,
          \<lparr>upd_filter_id = 2, upd_bloom_filter = ScratchBloomFilter 3,
            upd_min_max_filter = None\<rparr>]
   \<and> fst (PublishRuntimeFilters env_always_true 2 two_filters) = 1"
  by code_simp

text \<open>
  Claim C5, amended. \<open>filter_updates\<close> is the sequence of the calls of
  \<^verbatim>\<open>UpdateFilterFromLocal\<close>. \<^verbatim>\<open>FlushFinal\<close> at a level other than 0 makes no such call;
  at level 0 it makes those of \<^verbatim>\<open>PublishRuntimeFilters\<close> for the number of rows in
  the fanout. \<^verbatim>\<open>PublishRuntimeFilters\<close> makes one call for each filter context, in the
  order of \<open>filter_ctxs\<close>, the call for context \<open>k\<close> in the world left by the calls for
  the \<open>k\<close> contexts before it: with the filter's id; for a context with a scratch Bloom
  filter, with the always-true sentinel if the filter bank finds the false-positive
  rate too high for the filter's size at the number of build rows, and with the scratch
  filter otherwise; and with the min-max filter of the context, whether it is always
  true or not. The number of enabled filters, which the profile reports as published,
  counts the contexts whose Bloom filter's rate is not too high and those without a
  Bloom filter whose min-max filter exists and is not always true.
\<close>

theorem publish_filters:
  "(ht_ctx b = Some l \<and> l \<noteq> 0 \<and> FlushFinal e b = (st, b') \<longrightarrow>
      filter_updates b' = filter_updates b)
   \<and> (ht_ctx b = Some 0 \<and> FlushFinal e b = (st, b') \<longrightarrow>
        filter_updates b'
          = filter_updates (snd (PublishRuntimeFilters e (count_build_rows b) b)))
   \<and> filter_updates (snd (PublishRuntimeFilters e n b))
       = filter_updates b @
         map (\<lambda>k. \<lparr>upd_filter_id = filter_id (filter_ctxs b ! k),
                    upd_bloom_filter =
                      (case local_bloom_filter (filter_ctxs b ! k) of
                         None \<Rightarrow> NullBloomFilter
                       | Some f \<Rightarrow>
                           if FpRateTooHigh e
                                (world (snd (PublishRuntimeFilters e n
                                   (b\<lparr>filter_ctxs := take k (filter_ctxs b)\<rparr>))))
                                (filter_size (filter_ctxs b ! k)) n
                           then ALWAYS_TRUE_FILTER else ScratchBloomFilter f),
                    upd_min_max_filter = local_min_max_filter (filter_ctxs b ! k)\<rparr>)
           [0..<length (filter_ctxs b)]
   \<and> fst (PublishRuntimeFilters e n b)
       = length (filter
           (\<lambda>k. case local_bloom_filter (filter_ctxs b ! k) of
                   Some f \<Rightarrow>
                     \<not> FpRateTooHigh e
                         (world (snd (PublishRuntimeFilters e n
                            (b\<lparr>filter_ctxs := take k (filter_ctxs b)\<rparr>))))
                         (filter_size (filter_ctxs b ! k)) n
                 | None \<Rightarrow>
                     (case local_min_max_filter (filter_ctxs b ! k) of
                        None \<Rightarrow> False
                      | Some m \<Rightarrow>
                          \<not> AlwaysTrue e
                              (world (snd (PublishRuntimeFilters e n
                                 (b\<lparr>filter_ctxs := take k (filter_ctxs b)\<rparr>)))) m))
           [0..<length (filter_ctxs b)])"
proof (intro conjI impI)
  assume a: "ht_ctx b = Some l \<and> l \<noteq> 0 \<and> FlushFinal e b = (st, b')"
  then have "FlushFinal e b = (st, b')" by simp
  from FlushFinal_eq(11)[OF this] a show "filter_updates b' = filter_updates b"
    by (simp add: publish_at_level_0_flag)
next
  assume a: "ht_ctx b = Some 0 \<and> FlushFinal e b = (st, b')"
  then have "FlushFinal e b = (st, b')" by simp
  from FlushFinal_eq(11)[OF this] a
  show "filter_updates b' = filter_updates (snd (PublishRuntimeFilters e (count_build_rows b) b))"
    by (simp add: publish_at_level_0_def Let_def)
next
  have b: "bloom_filter_arg e w n ctx
      = (case local_bloom_filter ctx of
           None \<Rightarrow> NullBloomFilter
         | Some f \<Rightarrow> if FpRateTooHigh e w (filter_size ctx) n
                      then ALWAYS_TRUE_FILTER else ScratchBloomFilter f)" for w ctx
    by (simp add: bloom_filter_arg_def split: option.splits)
  from publish_fold_eq[of e n 0 b "filter_ctxs b", THEN conjunct1]
  show "filter_updates (snd (PublishRuntimeFilters e n b))
       = filter_updates b @
         map (\<lambda>k. \<lparr>upd_filter_id = filter_id (filter_ctxs b ! k),
                    upd_bloom_filter =
                      (case local_bloom_filter (filter_ctxs b ! k) of
                         None \<Rightarrow> NullBloomFilter
                       | Some f \<Rightarrow>
                           if FpRateTooHigh e
                                (world (snd (PublishRuntimeFilters e n
                                   (b\<lparr>filter_ctxs := take k (filter_ctxs b)\<rparr>))))
                                (filter_size (filter_ctxs b ! k)) n
                           then ALWAYS_TRUE_FILTER else ScratchBloomFilter f),
                    upd_min_max_filter = local_min_max_filter (filter_ctxs b ! k)\<rparr>)
           [0..<length (filter_ctxs b)]"
    unfolding world_published_prefix b unfolding PublishRuntimeFilters_def .
next
  have en: "filter_enabled e w n ctx
      = (case local_bloom_filter ctx of
           Some f \<Rightarrow> \<not> FpRateTooHigh e w (filter_size ctx) n
         | None \<Rightarrow>
             (case local_min_max_filter ctx of
                None \<Rightarrow> False
              | Some m \<Rightarrow> \<not> AlwaysTrue e w m))" for w ctx
    by (simp add: filter_enabled_def split: option.splits)
  from publish_fold_eq[of e n 0 b "filter_ctxs b", THEN conjunct2]
  show "fst (PublishRuntimeFilters e n b)
       = length (filter
           (\<lambda>k. case local_bloom_filter (filter_ctxs b ! k) of
                   Some f \<Rightarrow>
                     \<not> FpRateTooHigh e
                         (world (snd (PublishRuntimeFilters e n
                            (b\<lparr>filter_ctxs := take k (filter_ctxs b)\<rparr>))))
                         (filter_size (filter_ctxs b ! k)) n
                 | None \<Rightarrow>
                     (case local_min_max_filter (filter_ctxs b ! k) of
                        None \<Rightarrow> False
                      | Some m \<Rightarrow>
                          \<not> AlwaysTrue e
                              (world (snd (PublishRuntimeFilters e n
                                 (b\<lparr>filter_ctxs := take k (filter_ctxs b)\<rparr>)))) m))
           [0..<length (filter_ctxs b)])"
    unfolding world_published_prefix en unfolding PublishRuntimeFilters_def by simp
qed

theorem publish_filters_witness:
  "fst (FlushFinal env_reserved repartitioning_at_level_1) = OK
   \<and> filter_updates (snd (FlushFinal env_reserved repartitioning_at_level_1)) = []
   \<and> fst (FlushFinal env_ok two_filters) = OK
   \<and> filter_updates (snd (FlushFinal env_ok two_filters))
       = [\<lparr>upd_filter_id = 1, upd_bloom_filter = NullBloomFilter, upd_min_max_filter = Some 7\<rparr>,
          \<lparr>upd_filter_id = 2, upd_bloom_filter = ScratchBloomFilter 3,
            upd_min_max_filter = None\<rparr>]
   \<and> filter_updates (snd (FlushFinal env_fp_rate_high two_filters))
       = [\<lparr>upd_filter_id = 1, upd_bloom_filter = NullBloomFilter, upd_min_max_filter = Some 7\<rparr>,
          \<lparr>upd_filter_id = 2, upd_bloom_filter = ALWAYS_TRUE_FILTER,
            upd_min_max_filter = None\<rparr>]
   \<and> fst (PublishRuntimeFilters env_ok 2 two_filters) = 2
   \<and> fst (PublishRuntimeFilters env_fp_rate_high 2 two_filters) = 0"
proof -
  have pair: "\<And>(e :: (unit, nat) env) b. FlushFinal e b = (fst (FlushFinal e b), snd (FlushFinal e b))"
    by simp
  have l1: "ht_ctx repartitioning_at_level_1 = Some 1" "(1 :: int) \<noteq> 0"
    "filter_updates repartitioning_at_level_1 = []"
    by (simp_all add: repartitioning_at_level_1_def builder_of_def)
  have ok1: "fst (FlushFinal env_reserved repartitioning_at_level_1) = OK" by code_simp
  from publish_filters[of repartitioning_at_level_1 1 env_reserved
      "fst (FlushFinal env_reserved repartitioning_at_level_1)"
      "snd (FlushFinal env_reserved repartitioning_at_level_1)"] l1 pair
  have 1: "filter_updates (snd (FlushFinal env_reserved repartitioning_at_level_1)) = []"
    by simp
  have l0: "ht_ctx two_filters = Some 0" "filter_updates two_filters = []"
    "count_build_rows two_filters = 2" "filter_ctxs two_filters = [min_max_ctx, bloom_ctx]"
    by code_simp+
  have c: "local_bloom_filter min_max_ctx = None" "local_min_max_filter min_max_ctx = Some 7"
    "local_bloom_filter bloom_ctx = Some 3" "local_min_max_filter bloom_ctx = None"
    "filter_id min_max_ctx = 1" "filter_id bloom_ctx = 2"
    by (simp_all add: min_max_ctx_def bloom_ctx_def)
  have up: "[0..<2] = [0, 1]" by (simp add: upt_rec)
  have ok0: "fst (FlushFinal env_ok two_filters) = OK" by code_simp
  note t0 = publish_filters[of two_filters _ env_ok "fst (FlushFinal env_ok two_filters)"
      "snd (FlushFinal env_ok two_filters)" 2]
  have e0: "\<And>w s n. \<not> FpRateTooHigh (env_ok :: (unit, nat) env) w s n"
    "\<And>w f. \<not> AlwaysTrue (env_ok :: (unit, nat) env) w f"
    by (simp_all add: env_ok_def)
  from t0 pair l0 c e0
  have 2: "filter_updates (snd (FlushFinal env_ok two_filters))
       = [\<lparr>upd_filter_id = 1, upd_bloom_filter = NullBloomFilter, upd_min_max_filter = Some 7\<rparr>,
          \<lparr>upd_filter_id = 2, upd_bloom_filter = ScratchBloomFilter 3,
            upd_min_max_filter = None\<rparr>]"
    by (simp add: up)
  from t0 l0 c e0 have 3: "fst (PublishRuntimeFilters env_ok 2 two_filters) = 2"
    by (simp add: up)
  note t1 = publish_filters[of two_filters _ env_fp_rate_high
      "fst (FlushFinal env_fp_rate_high two_filters)"
      "snd (FlushFinal env_fp_rate_high two_filters)" 2]
  have e1: "\<And>w s n. FpRateTooHigh env_fp_rate_high w s n"
    "\<And>w f. AlwaysTrue env_fp_rate_high w f"
    by (simp_all add: env_fp_rate_high_def)
  from t1 pair l0 c e1
  have 4: "filter_updates (snd (FlushFinal env_fp_rate_high two_filters))
       = [\<lparr>upd_filter_id = 1, upd_bloom_filter = NullBloomFilter, upd_min_max_filter = Some 7\<rparr>,
          \<lparr>upd_filter_id = 2, upd_bloom_filter = ALWAYS_TRUE_FILTER,
            upd_min_max_filter = None\<rparr>]"
    by (simp add: up)
  from t1 l0 c e1 have 5: "fst (PublishRuntimeFilters env_fp_rate_high 2 two_filters) = 0"
    by (simp add: up)
  from ok1 1 ok0 2 3 4 5 show ?thesis by blast
qed

subsection \<open>Appending when the stream is full: the result\<close>

lemma best_candidate_None_iff:
  "best_candidate e b = None \<longleftrightarrow>
     \<not> (null_aware_partition b \<noteq> None \<and> CanSpill (part b (the (null_aware_partition b))))
     \<and> (\<forall>j\<in>set (hash_partitions b). CanSpill (part b j) \<longrightarrow> freed_mem e b j \<le> 0)"
proof (cases "null_aware_partition b \<noteq> None \<and> CanSpill (part b (the (null_aware_partition b)))")
  case True
  then show ?thesis by (auto simp: best_candidate_def)
next
  case False
  from best_candidate_fanout[OF False, of e] False show ?thesis
  proof (elim disjE conjE exE)
    assume "best_candidate e b = None"
      "\<forall>j\<in>set (hash_partitions b). CanSpill (part b j) \<longrightarrow> freed_mem e b j \<le> 0"
    with False show ?thesis by simp
  next
    fix k
    assume k: "k < length (hash_partitions b)"
      "best_candidate e b = Some (hash_partitions b ! k)"
      "CanSpill (part b (hash_partitions b ! k))" "0 < freed_mem e b (hash_partitions b ! k)"
    then have "\<not> (\<forall>j\<in>set (hash_partitions b). CanSpill (part b j) \<longrightarrow> freed_mem e b j \<le> 0)"
      using nth_mem[OF k(1)] by force
    with k(2) show ?thesis by simp
  qed
qed

lemma AppendRowStreamFull_round:
  assumes "SpillPartition e UNPIN_ALL_EXCEPT_CURRENT b = ((st1, sp), b1)"
  shows "st1 \<noteq> OK \<Longrightarrow> AppendRowStreamFull e i row b = ((False, st1), b1)"
    "st1 = OK \<Longrightarrow> stream_AddRow e i row b1 = ((True, st2), b2) \<Longrightarrow>
       AppendRowStreamFull e i row b = ((True, st2), b2)"
    "st1 = OK \<Longrightarrow> stream_AddRow e i row b1 = ((False, st2), b2) \<Longrightarrow> st2 \<noteq> OK \<Longrightarrow>
       AppendRowStreamFull e i row b = ((False, st2), b2)"
    "st1 = OK \<Longrightarrow> stream_AddRow e i row b1 = ((False, OK), b2) \<Longrightarrow>
       AppendRowStreamFull e i row b = AppendRowStreamFull e i row b2 \<and> spillable b2 < spillable b"
proof -
  show "st1 \<noteq> OK \<Longrightarrow> AppendRowStreamFull e i row b = ((False, st1), b1)"
    using assms by (subst AppendRowStreamFull.simps) simp
  show "st1 = OK \<Longrightarrow> stream_AddRow e i row b1 = ((True, st2), b2) \<Longrightarrow>
       AppendRowStreamFull e i row b = ((True, st2), b2)"
    using assms by (subst AppendRowStreamFull.simps) simp
  show "st1 = OK \<Longrightarrow> stream_AddRow e i row b1 = ((False, st2), b2) \<Longrightarrow> st2 \<noteq> OK \<Longrightarrow>
       AppendRowStreamFull e i row b = ((False, st2), b2)"
    using assms by (subst AppendRowStreamFull.simps) simp
  show "AppendRowStreamFull e i row b = AppendRowStreamFull e i row b2 \<and> spillable b2 < spillable b"
    if ok: "st1 = OK" and a: "stream_AddRow e i row b1 = ((False, OK), b2)"
  proof
    show "AppendRowStreamFull e i row b = AppendRowStreamFull e i row b2"
      using assms ok a by (subst AppendRowStreamFull.simps) simp
    have "spillable b2 = spillable b1"
      using stream_AddRow_failed[OF a] by (simp add: spillable_def)
    moreover have "spillable b1 < spillable b"
      using assms ok by (auto intro: SpillPartition_spillable)
    ultimately show "spillable b2 < spillable b" by simp
  qed
qed

lemma AppendRowStreamFull_last_call:
  assumes "AppendRowStreamFull e i row b = ((ok, st), b')"
  shows "(ok \<longrightarrow> (\<exists>b0. stream_AddRow e i row b0 = ((True, st), b')))
     \<and> (\<not> ok \<longrightarrow> st \<noteq> OK
           \<and> ((\<exists>b0 sp. SpillPartition e UNPIN_ALL_EXCEPT_CURRENT b0 = ((st, sp), b'))
              \<or> (\<exists>b0. stream_AddRow e i row b0 = ((False, st), b'))))"
  using assms
proof (induction e i row b arbitrary: ok st b' rule: AppendRowStreamFull.induct)
  case (1 e i row b)
  obtain st1 sp b1 where s: "SpillPartition e UNPIN_ALL_EXCEPT_CURRENT b = ((st1, sp), b1)"
    by (cases "SpillPartition e UNPIN_ALL_EXCEPT_CURRENT b") auto
  obtain ok2 st2 b2 where a: "stream_AddRow e i row b1 = ((ok2, st2), b2)"
    by (cases "stream_AddRow e i row b1") auto
  note r = AppendRowStreamFull_round[OF s, of i row]
  show ?case
  proof (cases "st1 = OK")
    case False
    from r(1)[OF False] "1.prems" have "ok = False" "st = st1" "b' = b1" by simp_all
    with s False show ?thesis by blast
  next
    case True
    show ?thesis
    proof (cases ok2)
      case ok2: True
      with a have a': "stream_AddRow e i row b1 = ((True, st2), b2)" by simp
      from r(2)[OF True a'] "1.prems" have "ok = True" "st = st2" "b' = b2" by simp_all
      with a' show ?thesis by blast
    next
      case nok: False
      show ?thesis
      proof (cases "st2 = OK")
        case ne: False
        from a nok have a': "stream_AddRow e i row b1 = ((False, st2), b2)" by simp
        from r(3)[OF True a' ne] "1.prems" have "ok = False" "st = st2" "b' = b2" by simp_all
        with a' ne show ?thesis by blast
      next
        case ok: True
        from a nok ok have a': "stream_AddRow e i row b1 = ((False, OK), b2)" by simp
        from r(4)[OF True a'] "1.prems"
        have "AppendRowStreamFull e i row b2 = ((ok, st), b')" by simp
        from "1.IH"[OF s[symmetric] refl _ a[symmetric] refl _ _ this] True nok ok
        show ?thesis by simp
      qed
    qed
  qed
qed

lemma AppendRowStreamFull_rows:
  assumes "AppendRowStreamFull e i row b = ((ok, st), b')"
  shows "(ok \<longrightarrow> build_rows (part b' i) = map_option (\<lambda>s. s @ [row]) (build_rows (part b i))
               \<and> spillable b' < spillable b)
     \<and> (\<not> ok \<longrightarrow> (\<forall>j. build_rows (part b' j) = build_rows (part b j)))
     \<and> (\<not> ok \<and> only_memory_failures e \<longrightarrow>
           st = ErrMsg NO_PARTITION_TO_SPILL \<and> best_candidate e b' = None)"
  using assms
proof (induction e i row b arbitrary: ok st b' rule: AppendRowStreamFull.induct)
  case (1 e i row b)
  obtain st1 sp b1 where s: "SpillPartition e UNPIN_ALL_EXCEPT_CURRENT b = ((st1, sp), b1)"
    by (cases "SpillPartition e UNPIN_ALL_EXCEPT_CURRENT b") auto
  have b1: "b1 = snd (SpillPartition e UNPIN_ALL_EXCEPT_CURRENT b)" using s by simp
  have rows1: "\<And>j. build_rows (part b1 j) = build_rows (part b j)" unfolding b1 by simp
  obtain ok2 st2 b2 where a: "stream_AddRow e i row b1 = ((ok2, st2), b2)"
    by (cases "stream_AddRow e i row b1") auto
  note r = AppendRowStreamFull_round[OF s, of i row]
  show ?case
  proof (cases "st1 = OK")
    case False
    from r(1)[OF False] "1.prems" have r': "ok = False" "st = st1" "b' = b1" by simp_all
    with False rows1 SpillPartition_failed[OF s False] show ?thesis by simp
  next
    case True
    have less: "spillable b1 < spillable b" using s True by (auto intro: SpillPartition_spillable)
    show ?thesis
    proof (cases ok2)
      case ok2: True
      from a ok2 have a': "stream_AddRow e i row b1 = ((True, st2), b2)" by simp
      from r(2)[OF True a'] "1.prems" have r': "ok = True" "b' = b2" by simp_all
      note v = stream_AddRow_rows(1)[OF a']
      have "spillable b2 = spillable b1"
      proof -
        have "length (filter id (map CanSpill (all_partitions b2)))
            = length (filter id (map CanSpill (all_partitions b1)))"
          using stream_AddRow_rows(2)[OF a'] by simp
        then show ?thesis by (simp add: spillable_def filter_map comp_def)
      qed
      with r' v rows1 less show ?thesis by simp
    next
      case nok: False
      have same: "all_partitions b2 = all_partitions b1"
        using a nok by (auto intro: stream_AddRow_failed)
      then have "\<And>j. part b2 j = part b1 j" by (simp add: part_def)
      then have rows2: "\<And>j. build_rows (part b2 j) = build_rows (part b j)"
        using rows1 by simp
      show ?thesis
      proof (cases "st2 = OK")
        case ne: False
        from a nok have a': "stream_AddRow e i row b1 = ((False, st2), b2)" by simp
        from r(3)[OF True a' ne] "1.prems" have r': "ok = False" "st = st2" "b' = b2"
          by simp_all
        have "\<not> only_memory_failures e"
        proof
          assume "only_memory_failures e"
          then have "snd (fst (AddRow e (world b1) i row)) = OK"
            by (simp add: only_memory_failures_def)
          with a ne show False
            by (auto simp: stream_AddRow_def Let_def split: prod.splits if_splits)
        qed
        with r' rows2 show ?thesis by simp
      next
        case ok: True
        from a nok ok have a': "stream_AddRow e i row b1 = ((False, OK), b2)" by simp
        from r(4)[OF True a'] "1.prems"
        have "AppendRowStreamFull e i row b2 = ((ok, st), b')" by simp
        from "1.IH"[OF s[symmetric] refl _ a[symmetric] refl _ _ this] True nok ok
        have ih: "(ok \<longrightarrow> build_rows (part b' i) = map_option (\<lambda>s. s @ [row]) (build_rows (part b2 i))
               \<and> spillable b' < spillable b2)
          \<and> (\<not> ok \<longrightarrow> (\<forall>j. build_rows (part b' j) = build_rows (part b2 j)))
          \<and> (\<not> ok \<and> only_memory_failures e \<longrightarrow>
               st = ErrMsg NO_PARTITION_TO_SPILL \<and> best_candidate e b' = None)" by simp
        have "spillable b2 = spillable b1" using same by (simp add: spillable_def)
        with ih rows2 less show ?thesis by auto
      qed
    qed
  qed
qed

text \<open>
  Claim C3 says that \<^verbatim>\<open>AppendRowStreamFull\<close> goes on until the append succeeds or no
  partition is left to spill, and then fails for lack of memory. Here the append to
  the stream of partition 0 fails for lack of memory, which is when \<^verbatim>\<open>AppendRow\<close>
  calls \<^verbatim>\<open>AppendRowStreamFull\<close>; after the first spill the append returns an error,
  and the loop ends with this error while partition 1 can still be spilled. And when
  nothing is left to spill, the status is the one \<^verbatim>\<open>SpillPartition\<close> builds from its
  message, "Internal error: could not find a partition to spill", not a
  \<^verbatim>\<open>MemLimitExceeded\<close> status.
\<close>

theorem append_error_counterexample:
  "stream_AddRow env_io_error 0 7 three_in_memory = ((False, OK), three_in_memory)
   \<and> fst (AppendRowStreamFull env_io_error 0 7 three_in_memory) = (False, ExtError 5)
   \<and> CanSpill (part (snd (AppendRowStreamFull env_io_error 0 7 three_in_memory)) 1)
   \<and> fst (SpillPartition env_io_error UNPIN_ALL_EXCEPT_CURRENT
            (snd (AppendRowStreamFull env_io_error 0 7 three_in_memory))) = (OK, Some 1)
   \<and> stream_AddRow env_never_fits 0 7 three_in_memory = ((False, OK), three_in_memory)
   \<and> fst (AppendRowStreamFull env_never_fits 0 7 three_in_memory)
       = (False, ErrMsg NO_PARTITION_TO_SPILL)"
  by code_simp

text \<open>
  Claim C3, amended. \<^verbatim>\<open>AppendRowStreamFull\<close> always returns, and what it returns is
  fixed round by round. A round calls \<^verbatim>\<open>SpillPartition\<close> with
  UNPIN_ALL_EXCEPT_CURRENT. When that call does not return OK, its status is returned
  with false, whatever could still be spilled; and it does not return OK when there is
  no victim, that is, when the null-aware partition cannot spill and no partition of
  the fanout that can spill frees more than 0 bytes: then the status is the one built
  from the message of \<^verbatim>\<open>SpillPartition\<close> and nothing has changed. When it returns OK,
  the append is tried again: a row that fits ends the loop with true; an append that
  returns an error ends it with false and that error, whatever could still be spilled;
  and an append that fails with the status OK starts the next round, with fewer
  partitions that can spill. So a call that returns true has appended the row in its
  last call of \<^verbatim>\<open>AddRow\<close> and has spilled at least one partition; a call that
  returns false returns the error of its last call of \<^verbatim>\<open>SpillPartition\<close> or of
  \<^verbatim>\<open>AddRow\<close> and has changed the rows of no stream; and when spills and appends only
  fail for lack of memory, that error is the one of \<^verbatim>\<open>SpillPartition\<close> that it could
  not find a partition to spill.
\<close>

theorem AppendRowStreamFull_result:
  assumes "AppendRowStreamFull e i row b = ((ok, st), b')"
  shows "(\<forall>st1 sp b1. SpillPartition e UNPIN_ALL_EXCEPT_CURRENT b = ((st1, sp), b1) \<longrightarrow>
           (st1 \<noteq> OK \<longrightarrow> \<not> ok \<and> st = st1 \<and> b' = b1)
         \<and> (st1 = OK \<longrightarrow>
              (\<forall>ok2 st2 b2. stream_AddRow e i row b1 = ((ok2, st2), b2) \<longrightarrow>
                 (ok2 \<longrightarrow> ok \<and> st = st2 \<and> b' = b2)
               \<and> (\<not> ok2 \<and> st2 \<noteq> OK \<longrightarrow> \<not> ok \<and> st = st2 \<and> b' = b2)
               \<and> (\<not> ok2 \<and> st2 = OK \<longrightarrow>
                    spillable b2 < spillable b
                    \<and> AppendRowStreamFull e i row b2 = ((ok, st), b')))))
     \<and> (\<not> (null_aware_partition b \<noteq> None \<and> CanSpill (part b (the (null_aware_partition b))))
          \<and> (\<forall>j\<in>set (hash_partitions b). CanSpill (part b j) \<longrightarrow> freed_mem e b j \<le> 0)
          \<longrightarrow> \<not> ok \<and> st = ErrMsg NO_PARTITION_TO_SPILL \<and> b' = b)
     \<and> (ok \<longrightarrow> build_rows (part b' i) = map_option (\<lambda>s. s @ [row]) (build_rows (part b i))
               \<and> spillable b' < spillable b
               \<and> (\<exists>b0. stream_AddRow e i row b0 = ((True, st), b')))
     \<and> (\<not> ok \<longrightarrow> st \<noteq> OK \<and> (\<forall>j. build_rows (part b' j) = build_rows (part b j))
           \<and> ((\<exists>b0 sp. SpillPartition e UNPIN_ALL_EXCEPT_CURRENT b0 = ((st, sp), b'))
              \<or> (\<exists>b0. stream_AddRow e i row b0 = ((False, st), b'))))
     \<and> (\<not> ok \<and> only_memory_failures e \<longrightarrow>
           st = ErrMsg NO_PARTITION_TO_SPILL
           \<and> \<not> (null_aware_partition b' \<noteq> None
                  \<and> CanSpill (part b' (the (null_aware_partition b'))))
           \<and> (\<forall>j\<in>set (hash_partitions b'). CanSpill (part b' j) \<longrightarrow> freed_mem e b' j \<le> 0))"
proof -
  have r1: "\<not> ok \<and> st = st1 \<and> b' = b1"
    if "SpillPartition e UNPIN_ALL_EXCEPT_CURRENT b = ((st1, sp), b1)" "st1 \<noteq> OK"
    for st1 sp b1
    using AppendRowStreamFull_round(1)[OF that, of i row] assms by simp
  have r2: "ok \<and> st = st2 \<and> b' = b2"
    if "SpillPartition e UNPIN_ALL_EXCEPT_CURRENT b = ((st1, sp), b1)" "st1 = OK"
      "stream_AddRow e i row b1 = ((ok2, st2), b2)" "ok2"
    for st1 sp b1 ok2 st2 b2
  proof -
    from that(3,4) have "stream_AddRow e i row b1 = ((True, st2), b2)" by simp
    from AppendRowStreamFull_round(2)[OF that(1,2) this] assms show ?thesis by simp
  qed
  have r3: "\<not> ok \<and> st = st2 \<and> b' = b2"
    if "SpillPartition e UNPIN_ALL_EXCEPT_CURRENT b = ((st1, sp), b1)" "st1 = OK"
      "stream_AddRow e i row b1 = ((ok2, st2), b2)" "\<not> ok2 \<and> st2 \<noteq> OK"
    for st1 sp b1 ok2 st2 b2
  proof -
    from that(3,4) have "stream_AddRow e i row b1 = ((False, st2), b2)" "st2 \<noteq> OK" by simp_all
    from AppendRowStreamFull_round(3)[OF that(1,2) this] assms show ?thesis by simp
  qed
  have r4: "spillable b2 < spillable b \<and> AppendRowStreamFull e i row b2 = ((ok, st), b')"
    if "SpillPartition e UNPIN_ALL_EXCEPT_CURRENT b = ((st1, sp), b1)" "st1 = OK"
      "stream_AddRow e i row b1 = ((ok2, st2), b2)" "\<not> ok2 \<and> st2 = OK"
    for st1 sp b1 ok2 st2 b2
  proof -
    from that(3,4) have "stream_AddRow e i row b1 = ((False, OK), b2)" by simp
    from AppendRowStreamFull_round(4)[OF that(1,2) this] assms show ?thesis by simp
  qed
  have rounds: "\<forall>st1 sp b1. SpillPartition e UNPIN_ALL_EXCEPT_CURRENT b = ((st1, sp), b1) \<longrightarrow>
           (st1 \<noteq> OK \<longrightarrow> \<not> ok \<and> st = st1 \<and> b' = b1)
         \<and> (st1 = OK \<longrightarrow>
              (\<forall>ok2 st2 b2. stream_AddRow e i row b1 = ((ok2, st2), b2) \<longrightarrow>
                 (ok2 \<longrightarrow> ok \<and> st = st2 \<and> b' = b2)
               \<and> (\<not> ok2 \<and> st2 \<noteq> OK \<longrightarrow> \<not> ok \<and> st = st2 \<and> b' = b2)
               \<and> (\<not> ok2 \<and> st2 = OK \<longrightarrow>
                    spillable b2 < spillable b
                    \<and> AppendRowStreamFull e i row b2 = ((ok, st), b'))))"
  proof (intro allI impI)
    fix st1 sp b1
    assume s: "SpillPartition e UNPIN_ALL_EXCEPT_CURRENT b = ((st1, sp), b1)"
    have 1: "st1 \<noteq> OK \<longrightarrow> \<not> ok \<and> st = st1 \<and> b' = b1"
      using r1[OF s] by blast
    have 2: "(ok2 \<longrightarrow> ok \<and> st = st2 \<and> b' = b2)
               \<and> (\<not> ok2 \<and> st2 \<noteq> OK \<longrightarrow> \<not> ok \<and> st = st2 \<and> b' = b2)
               \<and> (\<not> ok2 \<and> st2 = OK \<longrightarrow>
                    spillable b2 < spillable b
                    \<and> AppendRowStreamFull e i row b2 = ((ok, st), b'))"
      if ok1: "st1 = OK" and a: "stream_AddRow e i row b1 = ((ok2, st2), b2)" for ok2 st2 b2
      using r2[OF s ok1 a] r3[OF s ok1 a] r4[OF s ok1 a] by blast
    from 1 2 show "(st1 \<noteq> OK \<longrightarrow> \<not> ok \<and> st = st1 \<and> b' = b1)
         \<and> (st1 = OK \<longrightarrow>
              (\<forall>ok2 st2 b2. stream_AddRow e i row b1 = ((ok2, st2), b2) \<longrightarrow>
                 (ok2 \<longrightarrow> ok \<and> st = st2 \<and> b' = b2)
               \<and> (\<not> ok2 \<and> st2 \<noteq> OK \<longrightarrow> \<not> ok \<and> st = st2 \<and> b' = b2)
               \<and> (\<not> ok2 \<and> st2 = OK \<longrightarrow>
                    spillable b2 < spillable b
                    \<and> AppendRowStreamFull e i row b2 = ((ok, st), b'))))"
      by blast
  qed
  have none: "\<not> ok \<and> st = ErrMsg NO_PARTITION_TO_SPILL \<and> b' = b"
    if "\<not> (null_aware_partition b \<noteq> None \<and> CanSpill (part b (the (null_aware_partition b))))
          \<and> (\<forall>j\<in>set (hash_partitions b). CanSpill (part b j) \<longrightarrow> freed_mem e b j \<le> 0)"
  proof -
    from that have "best_candidate e b = None" using best_candidate_None_iff[of e b] by blast
    then have "SpillPartition e UNPIN_ALL_EXCEPT_CURRENT b = ((ErrMsg NO_PARTITION_TO_SPILL, None), b)"
      by (simp add: SpillPartition_def)
    from AppendRowStreamFull_round(1)[OF this, of i row] assms show ?thesis by simp
  qed
  note rows = AppendRowStreamFull_rows[OF assms]
  note last = AppendRowStreamFull_last_call[OF assms]
  have t: "build_rows (part b' i) = map_option (\<lambda>s. s @ [row]) (build_rows (part b i))
               \<and> spillable b' < spillable b
               \<and> (\<exists>b0. stream_AddRow e i row b0 = ((True, st), b'))" if ok
    using rows last that by simp
  have f: "st \<noteq> OK \<and> (\<forall>j. build_rows (part b' j) = build_rows (part b j))
           \<and> ((\<exists>b0 sp. SpillPartition e UNPIN_ALL_EXCEPT_CURRENT b0 = ((st, sp), b'))
              \<or> (\<exists>b0. stream_AddRow e i row b0 = ((False, st), b')))" if "\<not> ok"
    using rows last that by simp
  have m: "st = ErrMsg NO_PARTITION_TO_SPILL
           \<and> \<not> (null_aware_partition b' \<noteq> None
                  \<and> CanSpill (part b' (the (null_aware_partition b'))))
           \<and> (\<forall>j\<in>set (hash_partitions b'). CanSpill (part b' j) \<longrightarrow> freed_mem e b' j \<le> 0)"
    if "\<not> ok \<and> only_memory_failures e"
  proof -
    from rows that have "st = ErrMsg NO_PARTITION_TO_SPILL" "best_candidate e b' = None"
      by simp_all
    then show ?thesis using best_candidate_None_iff[of e b'] by blast
  qed
  show ?thesis
    apply (intro conjI)
        apply (rule rounds)
       apply (intro impI, erule none)
      apply (intro impI, erule t)
     apply (intro impI, erule f)
    apply (intro impI, erule m)
    done
qed

theorem AppendRowStreamFull_result_witness:
  "build_rows (part (snd (AppendRowStreamFull env_tight 0 7 three_in_memory)) 0) = Some [1, 7]
   \<and> spillable (snd (AppendRowStreamFull env_tight 0 7 three_in_memory)) < 3
   \<and> AppendRowStreamFull env_tight 0 7
        (snd (stream_AddRow env_tight 0 7
           (snd (SpillPartition env_tight UNPIN_ALL_EXCEPT_CURRENT three_in_memory))))
       = AppendRowStreamFull env_tight 0 7 three_in_memory
   \<and> AppendRowStreamFull env_io_error 0 7 three_in_memory
       = ((False, ExtError 5),
          snd (stream_AddRow env_io_error 0 7
            (snd (SpillPartition env_io_error UNPIN_ALL_EXCEPT_CURRENT three_in_memory))))
   \<and> fst (AppendRowStreamFull env_never_fits 0 7 three_in_memory)
       = (False, ErrMsg NO_PARTITION_TO_SPILL)
   \<and> best_candidate env_never_fits (snd (AppendRowStreamFull env_never_fits 0 7 three_in_memory))
       = None
   \<and> AppendRowStreamFull env_ok 0 7 three_partitions
       = ((False, ErrMsg NO_PARTITION_TO_SPILL), three_partitions)"
proof -
  have pair: "\<And>x :: (bool \<times> Status) \<times> (nat, nat) PhjBuilder. x = ((fst (fst x), snd (fst x)), snd x)"
    by simp
  txt \<open>Two rounds, and the row fits.\<close>
  define R where "R = AppendRowStreamFull env_tight 0 7 three_in_memory"
  define b1 where "b1 = snd (SpillPartition env_tight UNPIN_ALL_EXCEPT_CURRENT three_in_memory)"
  define b2 where "b2 = snd (stream_AddRow env_tight 0 7 b1)"
  have "fst (fst R) = True" unfolding R_def by code_simp
  then have r: "AppendRowStreamFull env_tight 0 7 three_in_memory = ((True, snd (fst R)), snd R)"
    unfolding R_def[symmetric] by (cases R) auto
  have "fst (SpillPartition env_tight UNPIN_ALL_EXCEPT_CURRENT three_in_memory) = (OK, Some 0)"
    by code_simp
  then have s: "SpillPartition env_tight UNPIN_ALL_EXCEPT_CURRENT three_in_memory = ((OK, Some 0), b1)"
    unfolding b1_def by (cases "SpillPartition env_tight UNPIN_ALL_EXCEPT_CURRENT three_in_memory") auto
  have "fst (stream_AddRow env_tight 0 7 b1) = (False, OK)" unfolding b1_def by code_simp
  then have a: "stream_AddRow env_tight 0 7 b1 = ((False, OK), b2)"
    unfolding b2_def by (cases "stream_AddRow env_tight 0 7 b1") auto
  have b0: "build_rows (part three_in_memory 0) = Some [1]" "spillable three_in_memory = 3"
    by code_simp+
  note t1 = AppendRowStreamFull_result[OF r]
  from t1 b0 have 1: "build_rows (part (snd R) 0) = Some [1, 7]" "spillable (snd R) < 3"
    by simp_all
  from t1[THEN conjunct1, rule_format, OF s, THEN conjunct2, rule_format, OF refl a]
  have "AppendRowStreamFull env_tight 0 7 b2 = ((True, snd (fst R)), snd R)" by simp
  with r have 2: "AppendRowStreamFull env_tight 0 7 b2
      = AppendRowStreamFull env_tight 0 7 three_in_memory" by simp
  txt \<open>The append returns an error after the first spill.\<close>
  define Q where "Q = AppendRowStreamFull env_io_error 0 7 three_in_memory"
  define c1 where "c1 = snd (SpillPartition env_io_error UNPIN_ALL_EXCEPT_CURRENT three_in_memory)"
  define c2 where "c2 = snd (stream_AddRow env_io_error 0 7 c1)"
  have q: "AppendRowStreamFull env_io_error 0 7 three_in_memory
      = ((fst (fst Q), snd (fst Q)), snd Q)" unfolding Q_def by simp
  have "fst (SpillPartition env_io_error UNPIN_ALL_EXCEPT_CURRENT three_in_memory) = (OK, Some 0)"
    by code_simp
  then have s': "SpillPartition env_io_error UNPIN_ALL_EXCEPT_CURRENT three_in_memory
      = ((OK, Some 0), c1)"
    unfolding c1_def
    by (cases "SpillPartition env_io_error UNPIN_ALL_EXCEPT_CURRENT three_in_memory") auto
  have "fst (stream_AddRow env_io_error 0 7 c1) = (False, ExtError 5)" unfolding c1_def by code_simp
  then have a': "stream_AddRow env_io_error 0 7 c1 = ((False, ExtError 5), c2)"
    unfolding c2_def by (cases "stream_AddRow env_io_error 0 7 c1") auto
  from AppendRowStreamFull_result[OF q, THEN conjunct1, rule_format, OF s',
      THEN conjunct2, rule_format, OF refl a']
  have "\<not> fst (fst Q) \<and> snd (fst Q) = ExtError 5 \<and> snd Q = c2" by simp
  then have 3: "AppendRowStreamFull env_io_error 0 7 three_in_memory = ((False, ExtError 5), c2)"
    unfolding Q_def[symmetric] by (cases Q) auto
  txt \<open>The row never fits, and the spills only fail for lack of a victim.\<close>
  define N where "N = AppendRowStreamFull env_never_fits 0 7 three_in_memory"
  have "fst (fst N) = False" unfolding N_def by code_simp
  then have n: "AppendRowStreamFull env_never_fits 0 7 three_in_memory
      = ((False, snd (fst N)), snd N)"
    unfolding N_def[symmetric] by (cases N) auto
  have m: "only_memory_failures env_never_fits"
    by (simp add: only_memory_failures_def env_never_fits_def env_tight_def env_ok_def)
  from AppendRowStreamFull_result[OF n] m
  have 4: "snd (fst N) = ErrMsg NO_PARTITION_TO_SPILL"
    "\<not> (null_aware_partition (snd N) \<noteq> None
          \<and> CanSpill (part (snd N) (the (null_aware_partition (snd N)))))
     \<and> (\<forall>j\<in>set (hash_partitions (snd N)). CanSpill (part (snd N) j)
           \<longrightarrow> freed_mem env_never_fits (snd N) j \<le> 0)"
    by simp_all
  from 4(2) have 5: "best_candidate env_never_fits (snd N) = None"
    using best_candidate_None_iff[of env_never_fits "snd N"] by blast
  from \<open>fst (fst N) = False\<close> 4(1) have 6: "fst N = (False, ErrMsg NO_PARTITION_TO_SPILL)"
    by (cases N) auto
  txt \<open>No victim from the start.\<close>
  define Z where "Z = AppendRowStreamFull env_ok 0 7 three_partitions"
  have z: "AppendRowStreamFull env_ok 0 7 three_partitions = ((fst (fst Z), snd (fst Z)), snd Z)"
    unfolding Z_def by simp
  have nv: "\<not> (null_aware_partition three_partitions \<noteq> None
          \<and> CanSpill (part three_partitions (the (null_aware_partition three_partitions))))
     \<and> (\<forall>j\<in>set (hash_partitions three_partitions). CanSpill (part three_partitions j)
           \<longrightarrow> freed_mem env_ok three_partitions j \<le> 0)"
    by code_simp
  from AppendRowStreamFull_result[OF z] nv
  have "\<not> fst (fst Z) \<and> snd (fst Z) = ErrMsg NO_PARTITION_TO_SPILL \<and> snd Z = three_partitions"
    by blast
  then have 7: "AppendRowStreamFull env_ok 0 7 three_partitions
      = ((False, ErrMsg NO_PARTITION_TO_SPILL), three_partitions)"
    unfolding Z_def[symmetric] by (cases Z) auto
  from 1 2 3 5 6 7 show ?thesis unfolding R_def Q_def N_def b1_def b2_def c1_def c2_def by blast
qed

subsection \<open>After probing, Reset, Close and Open\<close>






lemma close_fold_quiet:
  "quiet 0 b (foldl (\<lambda>b1 i. Partition_Close e i batch b1) b ks)"
proof (induction ks arbitrary: b)
  case Nil
  then show ?case by simp
next
  case (Cons k ks)
  from Partition_Close_quiet[of b e k batch] Cons[of "Partition_Close e k batch b"]
  show ?case by (auto intro: quiet_trans0)
qed


lemma CloseAllPartitions_quiet: "quiet 0 b (CloseAllPartitions e batch b)"
  unfolding CloseAllPartitions_def by (rule close_fold_quiet)


lemma CloseAndDeletePartitions_eq:
  "non_empty_build (CloseAndDeletePartitions e batch b) = non_empty_build b"
  "probe_stream_reservation (CloseAndDeletePartitions e batch b) = probe_stream_reservation b"
  "state (CloseAndDeletePartitions e batch b) = state b"
  "closed (CloseAndDeletePartitions e batch b) = closed b"
  "filter_ctxs (CloseAndDeletePartitions e batch b) = filter_ctxs b"
  "ht_ctx (CloseAndDeletePartitions e batch b) = ht_ctx b"
  "all_partitions (CloseAndDeletePartitions e batch b) = []"
  "hash_partitions (CloseAndDeletePartitions e batch b) = []"
  "null_aware_partition (CloseAndDeletePartitions e batch b) = None"
  using CloseAllPartitions_quiet[of b e batch]
  by (simp_all add: CloseAndDeletePartitions_def quiet_def frame_def)


lemma call_fold_fields:
  "non_empty_build (foldl (\<lambda>b' ctx. call e (f ctx) b') b cs) = non_empty_build b"
  "closed (foldl (\<lambda>b' ctx. call e (f ctx) b') b cs) = closed b"
  by (induction cs arbitrary: b) simp_all

lemma Close_eq:
  "non_empty_build (Close e b) = non_empty_build b" "closed (Close e b)"
  by (simp_all add: Close_def Let_def CloseAndDeletePartitions_eq call_fold_fields)







subsection \<open>The flag of a non-empty build\<close>




subsection \<open>Close\<close>

text \<open>
  Claim C9. \<^verbatim>\<open>Close\<close> leaves the builder closed; \<^verbatim>\<open>Close\<close> on a closed builder
  returns at once, without a call to a collaborator, and leaves the builder and the
  world as they are; so after the first call every further call, however many, changes
  nothing.
\<close>

theorem Close_idempotent:
  "closed (Close e b) \<and> (closed b \<longrightarrow> Close e b = b)
   \<and> (Close e ^^ n) (Close e b) = Close e b"
proof -
  have c: "closed (Close e b)" by (rule Close_eq(2))
  have g: "\<And>b'. closed b' \<Longrightarrow> Close e b' = b'" by (simp add: Close_def)
  with c have "(Close e ^^ n) (Close e b) = Close e b" by (induction n) simp_all
  with c g show ?thesis by simp
qed

theorem Close_idempotent_witness:
  "\<not> closed three_partitions \<and> closed (Close env_ok three_partitions)
   \<and> all_partitions (Close env_ok three_partitions) = []
   \<and> Close env_ok (Close env_ok three_partitions) = Close env_ok three_partitions"
proof -
  have 0: "\<not> closed three_partitions" "all_partitions (Close env_ok three_partitions) = []"
    by code_simp+
  from Close_idempotent[of env_ok three_partitions 0]
  have 1: "closed (Close env_ok three_partitions)" by simp
  from Close_idempotent[of env_ok "Close env_ok three_partitions" 0] 1
  have 2: "Close env_ok (Close env_ok three_partitions) = Close env_ok three_partitions"
    by simp
  from 0 1 2 show ?thesis by simp
qed

subsection \<open>The assertion of Reset\<close>






end
